theory Spec2Isabelle
  imports Main "HOL-Library.Word"
begin

section \<open>The data of othello.c\<close>

text \<open>
  \<^verbatim>\<open>unsigned int\<close> is a 32-bit word: coordinates, counts, ply numbers and the
  heuristic total wrap around as in C.  Scores held in \<^verbatim>\<open>int\<close> variables
  (\<^verbatim>\<open>effect\<close>, \<^verbatim>\<open>max_effect\<close>, the result of \<^verbatim>\<open>best_move\<close>) are
  mathematical integers.
\<close>

type_synonym uint = "32 word"

text \<open>
  \<^verbatim>\<open>char board[BOARD_SIZE][BOARD_SIZE + 1]\<close>: a list of rows.  The ninth
  character of a row is the terminating NUL that only \<^verbatim>\<open>draw_board\<close> reads; the
  rows of the model hold the eight playing cells.
\<close>

type_synonym board = "char list list"

text \<open>A \<^verbatim>\<open>char *\<close> into the board is the (row, column) of the cell it points to.\<close>

type_synonym coord = "uint \<times> uint"

definition BOARD_SIZE :: uint where
  "BOARD_SIZE = 8"

definition NUM_VECTORS :: nat where
  "NUM_VECTORS = 8"

definition MAX_CHANGES :: nat where
  "MAX_CHANGES = 4 * (8 - 3)"

definition BOARD_AREA :: uint where
  "BOARD_AREA = BOARD_SIZE * BOARD_SIZE"

definition INIT_MAX_EFFECT :: int where
  "INIT_MAX_EFFECT = - 9 * 64"

text \<open>The heuristic function: the macros \<^verbatim>\<open>idx_weight\<close> and \<^verbatim>\<open>h_func\<close>.\<close>

definition idx_weight :: "uint \<Rightarrow> int" where
  "idx_weight x = (if x = 0 \<or> x = BOARD_SIZE - 1 then 8 else 1)"

definition h_func :: "uint \<Rightarrow> uint \<Rightarrow> int" where
  "h_func r c = idx_weight r * idx_weight c"

datatype player_type_type = PT_COMP | PT_HUMAN

text \<open>
  The two \<^verbatim>\<open>player_data_type\<close> objects of \<^verbatim>\<open>main\<close> are \<^verbatim>\<open>x_data\<close> and
  \<^verbatim>\<open>o_data\<close>; a \<^verbatim>\<open>player_data_type *\<close> is one of their two addresses, and the
  store \<open>players\<close> maps an address to the record it holds.
\<close>

datatype player_ref = X_DATA | O_DATA

record player_data =
  marker :: char
  count :: uint
  ptype :: player_type_type
  opponent :: player_ref

text \<open>
  The global state: the board, the two player records, and the values the C library's
  \<^verbatim>\<open>rand()\<close> is going to return (the library is not part of the program; its
  output sequence is a parameter of the state).  The pool of unused move records
  (\<^verbatim>\<open>local_heap\<close>, \<^verbatim>\<open>enqueue\<close>, \<^verbatim>\<open>dequeue\<close>) only recycles storage: a chain of
  move records is modelled by the list of its coordinates, \<^verbatim>\<open>NULL\<close> by \<open>[]\<close>.
\<close>

record state =
  board :: board
  players :: "player_ref \<Rightarrow> player_data"
  rand_stream :: "nat \<Rightarrow> nat"

text \<open>A failed \<^verbatim>\<open>assert\<close> aborts the program.\<close>

datatype error = AssertFailed

definition cell :: "board \<Rightarrow> uint \<Rightarrow> uint \<Rightarrow> char" where
  "cell b r c = b ! unat r ! unat c"

definition set_cell :: "board \<Rightarrow> uint \<Rightarrow> uint \<Rightarrow> char \<Rightarrow> board" where
  "set_cell b r c m = b[unat r := (b ! unat r)[unat c := m]]"

definition set_cells :: "coord list \<Rightarrow> char \<Rightarrow> board \<Rightarrow> board" where
  "set_cells ps m b = fold (\<lambda>(r, c) b'. set_cell b' r c m) ps b"

definition add_count :: "player_ref \<Rightarrow> uint \<Rightarrow> state \<Rightarrow> state" where
  "add_count p n s = s\<lparr>players := (players s)(p := (players s p)\<lparr>count := count (players s p) + n\<rparr>)\<rparr>"

definition sub_count :: "player_ref \<Rightarrow> uint \<Rightarrow> state \<Rightarrow> state" where
  "sub_count p n s = s\<lparr>players := (players s)(p := (players s p)\<lparr>count := count (players s p) - n\<rparr>)\<rparr>"

section \<open>compute_effect\<close>

definition vector :: "(int \<times> int) list" where
  "vector = [(-1, -1), (-1, 0), (-1, 1), (0, -1), (0, 1), (1, -1), (1, 0), (1, 1)]"

text \<open>
  The inner \<^verbatim>\<open>for( ; ; )\<close> of \<^verbatim>\<open>compute_effect\<close>, from the values of
  \<^verbatim>\<open>row2\<close>, \<^verbatim>\<open>col2\<close>, \<^verbatim>\<open>line_change[0..len)\<close> and \<^verbatim>\<open>line_heur_total\<close> at
  the top of an iteration.  \<^verbatim>\<open>len = 0\<close> empties the list.
\<close>

function line_loop ::
  "board \<Rightarrow> char \<Rightarrow> uint \<Rightarrow> uint \<Rightarrow> uint \<Rightarrow> uint \<Rightarrow> coord list \<Rightarrow> uint
     \<Rightarrow> error + (coord list \<times> uint)" where
  "line_loop b m drow dcol row2 col2 line_change line_heur_total =
     (let row2' = row2 + drow; col2' = col2 + dcol in
      if row2' \<ge> BOARD_SIZE \<or> col2' \<ge> BOARD_SIZE \<or> cell b row2' col2' = CHR '' ''
      then Inr ([], line_heur_total)
      else if cell b row2' col2' = m then Inr (line_change, line_heur_total)
      else if \<not> length line_change < unat BOARD_SIZE - 1 then Inl AssertFailed
      else line_loop b m drow dcol row2' col2' (line_change @ [(row2', col2')])
             (line_heur_total + word_of_int (h_func row2' col2')))"
  by pat_completeness auto
termination
  by (relation "measure (\<lambda>(b, m, drow, dcol, row2, col2, line_change, line_heur_total).
        unat BOARD_SIZE - 1 - length line_change)") auto

declare line_loop.simps [simp del]

text \<open>The outer \<^verbatim>\<open>for\<close> over the vectors not yet tried.\<close>

fun vector_loop ::
  "(int \<times> int) list \<Rightarrow> uint \<Rightarrow> uint \<Rightarrow> char \<Rightarrow> board \<times> coord list \<times> uint
     \<Rightarrow> error + (board \<times> coord list \<times> uint)" where
  "vector_loop [] row col m acc = Inr acc"
| "vector_loop ((drow, dcol) # vs) row col m (b, changes, heur_total) =
     (case line_loop b m (word_of_int drow) (word_of_int dcol) row col [] 0 of
        Inl e \<Rightarrow> Inl e
      | Inr (line_change, line_heur_total) \<Rightarrow>
          if length line_change > 0 then
            if \<not> length changes + length line_change \<le> MAX_CHANGES then Inl AssertFailed
            else vector_loop vs row col m
                   (set_cells line_change m b, changes @ line_change,
                    heur_total + line_heur_total)
          else vector_loop vs row col m (b, changes, heur_total))"

text \<open>
  \<^verbatim>\<open>compute_effect\<close> returns \<^verbatim>\<open>heur_total\<close>, the first \<^verbatim>\<open>num_changed\<close> entries
  of \<^verbatim>\<open>changes\<close> (\<^verbatim>\<open>num_changed\<close> is the length of the list) and the new state.
\<close>

definition compute_effect ::
  "uint \<Rightarrow> uint \<Rightarrow> player_ref \<Rightarrow> state \<Rightarrow> error + (uint \<times> coord list \<times> state)" where
  "compute_effect row col player s =
     (case vector_loop vector row col (marker (players s player)) (board s, [], 0) of
        Inl e \<Rightarrow> Inl e
      | Inr (b, changes, heur_total) \<Rightarrow>
          if length changes > 0 then
            let s1 = s\<lparr>board := set_cell b row col (marker (players s player))\<rparr>;
                s2 = add_count player (of_nat (length changes) + 1) s1;
                s3 = sub_count (opponent (players s2 player)) (of_nat (length changes)) s2
            in Inr (heur_total + word_of_int (h_func row col), changes, s3)
          else Inr (heur_total, changes, s\<lparr>board := b\<rparr>))"

section \<open>best_move\<close>

text \<open>
  The local variables of \<^verbatim>\<open>best_move\<close> that live across the iterations of its
  two nested loops: \<^verbatim>\<open>done\<close>, \<^verbatim>\<open>max_effect\<close>, the array \<^verbatim>\<open>best_moves\<close> (its
  first \<^verbatim>\<open>num_best_moves\<close> chains) and \<^verbatim>\<open>chain_ptr\<close>.
\<close>

record loop_vars =
  done_flag :: bool
  max_effect :: int
  best_moves :: "coord list list"
  chain_ptr :: "coord list"

definition init_vars :: loop_vars where
  "init_vars = \<lparr>done_flag = False, max_effect = INIT_MAX_EFFECT, best_moves = [], chain_ptr = []\<rparr>"

text \<open>
  The cells in the order the nested loops \<^verbatim>\<open>for i\<close>, \<^verbatim>\<open>for j\<close> visit them.  Both
  loop conditions test \<^verbatim>\<open>!done\<close>, so once \<^verbatim>\<open>done\<close> is set no further cell is
  visited: the two loops are one loop over this list.
\<close>

definition all_cells :: "coord list" where
  "all_cells = List.product [0, 1, 2, 3, 4, 5, 6, 7] [0, 1, 2, 3, 4, 5, 6, 7]"

text \<open>Lines 263 to 294: the comparison of \<^verbatim>\<open>effect\<close> with \<^verbatim>\<open>max_effect\<close>.\<close>

definition record_move :: "uint \<Rightarrow> int \<Rightarrow> int \<Rightarrow> uint \<Rightarrow> uint \<Rightarrow> int \<Rightarrow> loop_vars \<Rightarrow> loop_vars" where
  "record_move ply prev_move_val best_sibling i j effect lv =
     (let lv1 = (if effect > max_effect lv
                 then lv\<lparr>done_flag := (if ply > 1 \<and> prev_move_val - effect < best_sibling
                                         then True else done_flag lv),
                         max_effect := effect, best_moves := []\<rparr>
                 else lv)
      in if effect = max_effect lv1
         then lv1\<lparr>best_moves := best_moves lv1 @ [(i, j) # chain_ptr lv1]\<rparr>
         else lv1)"

text \<open>Lines 296 to 304: remove the marker and undo the changes.\<close>

definition undo_move :: "uint \<Rightarrow> uint \<Rightarrow> player_ref \<Rightarrow> coord list \<Rightarrow> state \<Rightarrow> state" where
  "undo_move i j player changes s =
     (let s1 = s\<lparr>board := set_cell (board s) i j (CHR '' '')\<rparr>;
          s2 = sub_count player (of_nat (length changes) + 1) s1;
          s3 = add_count (opponent (players s2 player)) (of_nat (length changes)) s2
      in s3\<lparr>board := set_cells changes (marker (players s3 (opponent (players s3 player)))) (board s3)\<rparr>)"

text \<open>
  Lines 308 to 332.  \<open>rtn\<close> says that \<^verbatim>\<open>rtn_chain\<close> is not \<^verbatim>\<open>NULL\<close>; the second
  component of the result is the chain stored into \<^verbatim>\<open>*rtn_chain\<close>, if one is.
\<close>

definition rand :: "state \<Rightarrow> nat \<times> state" where
  "rand s = (rand_stream s 0, s\<lparr>rand_stream := (\<lambda>n. rand_stream s (Suc n))\<rparr>)"

definition choose_result :: "bool \<Rightarrow> loop_vars \<Rightarrow> state \<Rightarrow> int \<times> coord list option \<times> state" where
  "choose_result rtn lv s =
     (if \<not> rtn then (max_effect lv, None, s)
      else if length (best_moves lv) = 0 then (0, Some [], s)
      else let (r, s') = rand s; chosen_move = r mod length (best_moves lv)
           in (max_effect lv, Some (best_moves lv ! chosen_move), s'))"

text \<open>
  \<^verbatim>\<open>best_move\<close>, the loop over the cells not yet visited, and lines 243 to 261 of
  the loop body: the trial of the move (i, j).  A trial that flips nothing gives \<open>None\<close>
  (\<^verbatim>\<open>continue\<close>); otherwise it gives the value of \<^verbatim>\<open>effect\<close> after the
  recursive call, the value of \<^verbatim>\<open>chain_ptr\<close>, and the flips to undo.
\<close>

function best_move ::
    "bool \<Rightarrow> player_ref \<Rightarrow> uint \<Rightarrow> uint \<Rightarrow> int \<Rightarrow> int \<Rightarrow> state
       \<Rightarrow> error + (int \<times> coord list option \<times> state)"
  and cell_loop ::
    "coord list \<Rightarrow> player_ref \<Rightarrow> uint \<Rightarrow> uint \<Rightarrow> int \<Rightarrow> int \<Rightarrow> loop_vars \<Rightarrow> state
       \<Rightarrow> error + (loop_vars \<times> state)"
  and trial_move ::
    "uint \<Rightarrow> uint \<Rightarrow> player_ref \<Rightarrow> uint \<Rightarrow> uint \<Rightarrow> loop_vars \<Rightarrow> state
       \<Rightarrow> error + ((int \<times> coord list \<times> coord list) option \<times> state)"
where
  "best_move rtn player ply max_ply prev_move_val best_sibling s =
     (case cell_loop all_cells player ply max_ply prev_move_val best_sibling init_vars s of
        Inl e \<Rightarrow> Inl e
      | Inr (lv, s') \<Rightarrow> Inr (choose_result rtn lv s'))"
| "cell_loop [] player ply max_ply prev_move_val best_sibling lv s = Inr (lv, s)"
| "cell_loop ((i, j) # cs) player ply max_ply prev_move_val best_sibling lv s =
     (if done_flag lv then Inr (lv, s)
      else if cell (board s) i j \<noteq> CHR '' ''
      then cell_loop cs player ply max_ply prev_move_val best_sibling lv s
      else case trial_move i j player ply max_ply lv s of
        Inl e \<Rightarrow> Inl e
      | Inr (None, s1) \<Rightarrow>
          cell_loop cs player ply max_ply prev_move_val best_sibling lv s1
      | Inr (Some (effect, chain, changes), s2) \<Rightarrow>
          cell_loop cs player ply max_ply prev_move_val best_sibling
            (record_move ply prev_move_val best_sibling i j effect (lv\<lparr>chain_ptr := chain\<rparr>))
            (undo_move i j player changes s2))"
| "trial_move i j player ply max_ply lv s =
     (case compute_effect i j player s of
        Inl e \<Rightarrow> Inl e
      | Inr (heur, changes, s1) \<Rightarrow>
          if length changes = 0 then Inr (None, s1)
          else if ply < max_ply
                  \<and> count (players s1 player)
                      + count (players s1 (opponent (players s1 player))) < BOARD_AREA
          then (case best_move True (opponent (players s1 player)) (ply + 1) max_ply
                       (sint heur) (max_effect lv) s1 of
                  Inl e \<Rightarrow> Inl e
                | Inr (v, chain, s2) \<Rightarrow>
                    if \<not> sint heur - v > INIT_MAX_EFFECT then Inl AssertFailed
                    else Inr (Some (sint heur - v,
                                    (case chain of None \<Rightarrow> chain_ptr lv | Some c \<Rightarrow> c),
                                    changes), s2))
          else Inr (Some (sint heur, chain_ptr lv, changes), s1))"
  by pat_completeness auto
termination
  apply (relation "measures
       [\<lambda>x. case x of Inl (rtn, player, ply, max_ply, rest) \<Rightarrow> unat max_ply - unat ply
                     | Inr (Inl (cs, player, ply, max_ply, rest)) \<Rightarrow> unat max_ply - unat ply
                     | Inr (Inr (i, j, player, ply, max_ply, rest)) \<Rightarrow> unat max_ply - unat ply,
        \<lambda>x. case x of Inl a \<Rightarrow> Suc (Suc (length all_cells))
                     | Inr (Inl (cs, rest)) \<Rightarrow> Suc (length cs)
                     | Inr (Inr b) \<Rightarrow> 0]")
        apply simp_all
  apply unat_arith
  done

declare best_move.simps [simp del] trial_move.simps [simp del]

section \<open>The position that main sets up\<close>

text \<open>
  Lines 354 to 372 of \<^verbatim>\<open>main\<close>: the markers, the opponent links, the four
  centre cells and the counts.  The two player types are read from the terminal, and
  the values \<^verbatim>\<open>rand()\<close> returns depend on the seed.
\<close>

definition initial_state :: "player_type_type \<Rightarrow> player_type_type \<Rightarrow> (nat \<Rightarrow> nat) \<Rightarrow> state" where
  "initial_state x_type o_type rs =
     \<lparr>board = [''        '', ''        '', ''        '', ''   XO   '', ''   OX   '',
               ''        '', ''        '', ''        ''],
      players = (\<lambda>p. case p of
          X_DATA \<Rightarrow> \<lparr>marker = CHR ''X'', count = 2, ptype = x_type, opponent = O_DATA\<rparr>
        | O_DATA \<Rightarrow> \<lparr>marker = CHR ''O'', count = 2, ptype = o_type, opponent = X_DATA\<rparr>),
      rand_stream = rs\<rparr>"

text \<open>
  A position near the end of a game, where O cannot move and X can play the corner
  (0, 0), flipping (0, 1), or the corner (7, 7), flipping (7, 6).
\<close>

definition endgame_state :: state where
  "endgame_state =
     \<lparr>board = ['' OXXXXXX'', ''XXXXXXXX'', ''XXXXXXXX'', ''XXXXXXXX'', ''XXXXXXXX'',
               ''XXXXXXXX'', ''XXXXXXXX'', ''XXXXXXO ''],
      players = (\<lambda>p. case p of
          X_DATA \<Rightarrow> \<lparr>marker = CHR ''X'', count = 60, ptype = PT_COMP, opponent = O_DATA\<rparr>
        | O_DATA \<Rightarrow> \<lparr>marker = CHR ''O'', count = 2, ptype = PT_COMP, opponent = X_DATA\<rparr>),
      rand_stream = (\<lambda>n. 0)\<rparr>"

text \<open>
  A position with three empty cells, X to move.  X can play the corner (0, 0), flipping
  (0, 1), after which O has no move; or the corner (7, 7), flipping (7, 6), after which O
  can play (0, 0), flipping (1, 0), or (0, 7), flipping (0, 2) to (0, 6).
\<close>

definition pruning_state :: state where
  "pruning_state =
     \<lparr>board = ['' OXXXXX '', ''XXXXXXXX'', ''OXXXXXXX'', ''XXXXXXXX'', ''XXXXXXXX'',
               ''XXXXXXXX'', ''XXXXXXXX'', ''XXXXXXO ''],
      players = (\<lambda>p. case p of
          X_DATA \<Rightarrow> \<lparr>marker = CHR ''X'', count = 58, ptype = PT_COMP, opponent = O_DATA\<rparr>
        | O_DATA \<Rightarrow> \<lparr>marker = CHR ''O'', count = 3, ptype = PT_COMP, opponent = X_DATA\<rparr>),
      rand_stream = (\<lambda>n. 0)\<rparr>"

section \<open>Predicates used in the statements\<close>

text \<open>A board has eight rows of eight cells.\<close>

definition wf_board :: "board \<Rightarrow> bool" where
  "wf_board b \<longleftrightarrow> length b = 8 \<and> (\<forall>row \<in> set b. length row = 8)"

text \<open>Coordinates inside the board, as the tests \<^verbatim>\<open>row >= BOARD_SIZE\<close> of the code.\<close>

definition on_board :: "uint \<Rightarrow> uint \<Rightarrow> bool" where
  "on_board r c \<longleftrightarrow> r < BOARD_SIZE \<and> c < BOARD_SIZE"

text \<open>
  Every cell is empty or holds one of the two markers \<open>m\<close> and \<open>om\<close>: the three
  cell states of the data model.
\<close>

definition valid_board :: "board \<Rightarrow> char \<Rightarrow> char \<Rightarrow> bool" where
  "valid_board b m om \<longleftrightarrow>
     wf_board b \<and> (\<forall>row \<in> set b. \<forall>ch \<in> set row. ch = CHR '' '' \<or> ch = m \<or> ch = om)"

text \<open>A cell that the scan of a line collects: on the board, not empty, not the mover's.\<close>

definition flippable :: "board \<Rightarrow> char \<Rightarrow> coord \<Rightarrow> bool" where
  "flippable b m p \<longleftrightarrow>
     on_board (fst p) (snd p) \<and> cell b (fst p) (snd p) \<noteq> CHR '' '' \<and> cell b (fst p) (snd p) \<noteq> m"

text \<open>The sum of the heuristic weights of a list of cells.\<close>

definition weight_sum :: "coord list \<Rightarrow> int" where
  "weight_sum ps = sum_list (map (\<lambda>(r, c). h_func r c) ps)"

text \<open>
  The state after a move that flips \<open>changes\<close>: the flipped cells and the new cell
  hold the mover's marker, and the two counts are adjusted.
\<close>

definition placed :: "uint \<Rightarrow> uint \<Rightarrow> player_ref \<Rightarrow> coord list \<Rightarrow> state \<Rightarrow> state" where
  "placed row col player changes s =
     sub_count (opponent (players s player)) (of_nat (length changes))
       (add_count player (of_nat (length changes) + 1)
          (s\<lparr>board := set_cell (set_cells changes (marker (players s player)) (board s))
                        row col (marker (players s player))\<rparr>))"

text \<open>
  What one direction yields on a board: the flips the line scan returns from the cell
  (row, col).
\<close>

definition line_yield :: "board \<Rightarrow> char \<Rightarrow> uint \<Rightarrow> uint \<Rightarrow> int \<times> int \<Rightarrow> coord list" where
  "line_yield b m row col d =
     (case line_loop b m (word_of_int (fst d)) (word_of_int (snd d)) row col [] 0 of
        Inl e \<Rightarrow> [] | Inr (line_change, line_heur_total) \<Rightarrow> line_change)"

text \<open>
  The number of cells between a coordinate and the edge of the board in the sense of a
  step \<open>d\<close>, and the number of cells of the board that lie beyond a cell in a direction.
\<close>

definition edge_dist :: "int \<Rightarrow> uint \<Rightarrow> nat" where
  "edge_dist d x = (if d = 1 then 7 - unat x else if d = - 1 then unat x else 7)"

definition avail :: "int \<times> int \<Rightarrow> uint \<Rightarrow> uint \<Rightarrow> nat" where
  "avail d r c = min (edge_dist (fst d) r) (edge_dist (snd d) c)"

definition cap :: "uint \<Rightarrow> uint \<Rightarrow> int \<times> int \<Rightarrow> nat" where
  "cap row col d = avail d row col - 1"

text \<open>
  The states the search runs on: a valid board over the markers of the two players, who
  are each other's opponent, as \<^verbatim>\<open>main\<close> links them.
\<close>

definition valid_state :: "state \<Rightarrow> bool" where
  "valid_state s \<longleftrightarrow>
     valid_board (board s) (marker (players s X_DATA)) (marker (players s O_DATA))
     \<and> opponent (players s X_DATA) = O_DATA \<and> opponent (players s O_DATA) = X_DATA"

text \<open>Two states with the same board and the same player records.\<close>

definition same_game :: "state \<Rightarrow> state \<Rightarrow> bool" where
  "same_game s s' \<longleftrightarrow> board s' = board s \<and> players s' = players s"

text \<open>
  No legal move: no empty cell of the board has a direction that yields a flip for the
  player.
\<close>

definition no_legal_move :: "player_ref \<Rightarrow> state \<Rightarrow> bool" where
  "no_legal_move player s \<longleftrightarrow>
     (\<forall>p \<in> set all_cells. cell (board s) (fst p) (snd p) = CHR '' '' \<longrightarrow>
        (\<forall>d \<in> set vector. line_yield (board s) (marker (players s player)) (fst p) (snd p) d = []))"

text \<open>
  The candidates collected so far: every chain in \<^verbatim>\<open>best_moves\<close> starts with a move,
  and while there is none \<^verbatim>\<open>max_effect\<close> still has its initial value and
  \<^verbatim>\<open>done\<close> is not set.
\<close>

definition cands_ok :: "loop_vars \<Rightarrow> bool" where
  "cands_ok lv \<longleftrightarrow>
     list_all (\<lambda>c. c \<noteq> []) (best_moves lv)
     \<and> (best_moves lv \<noteq> [] \<or> (max_effect lv = INIT_MAX_EFFECT \<and> \<not> done_flag lv))"

section \<open>Minimax without pruning\<close>

text \<open>
  The reference of the specification, which is not a function of the program: the score
  of a full minimax to depth \<^verbatim>\<open>max_ply\<close>.  Every empty cell that flips something is a move; its value is the
  score of the move, minus the value of the position for the opponent one ply deeper
  when the depth limit is not reached and the board is not full; a node is worth the
  best of its moves, and 0 when it has none.  Nothing is cut off, and nothing is undone:
  each move is tried on the position itself.
\<close>

function minimax :: "player_ref \<Rightarrow> uint \<Rightarrow> uint \<Rightarrow> state \<Rightarrow> int"
  and move_values :: "coord list \<Rightarrow> player_ref \<Rightarrow> uint \<Rightarrow> uint \<Rightarrow> state \<Rightarrow> int list"
where
  "minimax player ply max_ply s =
     (case move_values all_cells player ply max_ply s of
        [] \<Rightarrow> 0
      | v # vs \<Rightarrow> Max (set (v # vs)))"
| "move_values [] player ply max_ply s = []"
| "move_values ((i, j) # cs) player ply max_ply s =
     (if cell (board s) i j \<noteq> CHR '' '' then move_values cs player ply max_ply s
      else case compute_effect i j player s of
        Inl e \<Rightarrow> move_values cs player ply max_ply s
      | Inr (heur, changes, s1) \<Rightarrow>
          if length changes = 0 then move_values cs player ply max_ply s
          else (if ply < max_ply
                   \<and> count (players s1 player)
                       + count (players s1 (opponent (players s1 player))) < BOARD_AREA
                then sint heur - minimax (opponent (players s1 player)) (ply + 1) max_ply s1
                else sint heur)
               # move_values cs player ply max_ply s)"
  by pat_completeness auto
termination
  apply (relation "measures
       [\<lambda>x. case x of Inl (player, ply, max_ply, rest) \<Rightarrow> unat max_ply - unat ply
                     | Inr (cs, player, ply, max_ply, rest) \<Rightarrow> unat max_ply - unat ply,
        \<lambda>x. case x of Inl a \<Rightarrow> Suc (length all_cells)
                     | Inr (cs, rest) \<Rightarrow> length cs]")
        apply simp_all
  apply unat_arith
  done

declare minimax.simps [simp del]

text \<open>
  The loop variables between two iterations: either no move has been recorded, or the
  best score so far is above the initial value.
\<close>

definition lv_ok :: "loop_vars \<Rightarrow> bool" where
  "lv_ok lv \<longleftrightarrow>
     (best_moves lv = [] \<and> max_effect lv = INIT_MAX_EFFECT)
     \<or> (best_moves lv \<noteq> [] \<and> max_effect lv > INIT_MAX_EFFECT)"

text \<open>
  What the loop over cells with exact move values \<open>vals\<close> leaves: the maximum of
  these values, or, after a cut-off, one of them which the parent is going to discard.
\<close>

definition loop_post :: "uint \<Rightarrow> int \<Rightarrow> int \<Rightarrow> loop_vars \<Rightarrow> int list \<Rightarrow> loop_vars \<Rightarrow> bool" where
  "loop_post ply prev_move_val best_sibling lv vals lv' \<longleftrightarrow>
     lv_ok lv' \<and>
     ((\<not> done_flag lv' \<and> max_effect lv' = fold max vals (max_effect lv)
        \<and> (best_moves lv' = [] \<longleftrightarrow> best_moves lv = [] \<and> vals = []))
      \<or> (done_flag lv' \<and> 1 < ply \<and> prev_move_val - max_effect lv' < best_sibling
           \<and> max_effect lv' \<in> set vals \<and> best_moves lv' \<noteq> []))"

text \<open>
  The loop variables at a node below the root while nothing is cut off: the best score so
  far, if there is one, does not yet justify a cut-off.
\<close>

definition cut_inv :: "int \<Rightarrow> int \<Rightarrow> loop_vars \<Rightarrow> bool" where
  "cut_inv prev_move_val best_sibling lv \<longleftrightarrow>
     lv_ok lv \<and> (done_flag lv \<or> best_moves lv = [] \<or> best_sibling \<le> prev_move_val - max_effect lv)"

section \<open>The flips of a direction, as the specification describes them\<close>

text \<open>
  Cells as pairs of integers.  From (row, col) the walk in direction \<open>d\<close> visits the
  cells \<open>(row + k * fst d, col + k * snd d)\<close> for \<open>k = 1, 2, \<dots>\<close>; on a board of
  eight rows and columns the eighth such cell is never inside the board.  The walk collects
  the contiguous cells that hold the opponent's marker \<open>om\<close>, and the collected run
  is flipped when the cell that ends it is inside the board and holds the mover's
  marker \<open>m\<close>; a run that ends at the edge of the board or at an empty cell flips
  nothing.
\<close>

definition in_board :: "int \<Rightarrow> int \<Rightarrow> bool" where
  "in_board r c \<longleftrightarrow> 0 \<le> r \<and> r < 8 \<and> 0 \<le> c \<and> c < 8"

definition owner :: "board \<Rightarrow> int \<Rightarrow> int \<Rightarrow> char" where
  "owner b r c = b ! nat r ! nat c"

definition ray :: "int \<Rightarrow> int \<Rightarrow> int \<times> int \<Rightarrow> nat \<Rightarrow> (int \<times> int) list" where
  "ray row col d n = map (\<lambda>k. (row + int k * fst d, col + int k * snd d)) [1..<Suc n]"

definition opponent_run :: "board \<Rightarrow> char \<Rightarrow> (int \<times> int) list \<Rightarrow> (int \<times> int) list" where
  "opponent_run b om cells = takeWhile (\<lambda>(r, c). in_board r c \<and> owner b r c = om) cells"

definition ends_on_mover :: "board \<Rightarrow> char \<Rightarrow> char \<Rightarrow> (int \<times> int) list \<Rightarrow> bool" where
  "ends_on_mover b m om cells =
     (case dropWhile (\<lambda>(r, c). in_board r c \<and> owner b r c = om) cells of
        [] \<Rightarrow> False
      | (r, c) # rest \<Rightarrow> in_board r c \<and> owner b r c = m)"

definition line_flips :: "board \<Rightarrow> char \<Rightarrow> char \<Rightarrow> int \<Rightarrow> int \<Rightarrow> int \<times> int \<Rightarrow> (int \<times> int) list" where
  "line_flips b m om row col d =
     (if ends_on_mover b m om (ray row col d 7) then opponent_run b om (ray row col d 7) else [])"

text \<open>The pointer to a cell of the board, and markers that tell the three cell states apart.\<close>

definition cell_ptr :: "int \<times> int \<Rightarrow> coord" where
  "cell_ptr p = (word_of_int (fst p), word_of_int (snd p))"

definition valid_markers :: "char \<Rightarrow> char \<Rightarrow> bool" where
  "valid_markers m om \<longleftrightarrow> m \<noteq> om \<and> m \<noteq> CHR '' '' \<and> om \<noteq> CHR '' ''"

section \<open>Boards\<close>


lemma uint_less_8: "(x :: uint) < 8 \<longleftrightarrow> unat x < 8"
  by (simp add: word_less_nat_alt)

lemma uint_less_8_cases:
  "(x :: uint) < 8 \<Longrightarrow> x = 0 \<or> x = 1 \<or> x = 2 \<or> x = 3 \<or> x = 4 \<or> x = 5 \<or> x = 6 \<or> x = 7"
  by unat_arith

lemma on_board_unat: "on_board r c \<Longrightarrow> unat r < 8 \<and> unat c < 8"
  by (simp add: on_board_def BOARD_SIZE_def uint_less_8)

lemma wf_board_row: "wf_board b \<Longrightarrow> i < 8 \<Longrightarrow> length (b ! i) = 8"
  by (simp add: wf_board_def)

lemma wf_board_set_cell:
  assumes "wf_board b"
  shows "wf_board (set_cell b r c m)"
proof (cases "unat r < length b")
  case True
  with assms show ?thesis
    unfolding wf_board_def set_cell_def
    by (auto dest!: set_update_subset_insert [THEN subsetD])
next
  case False
  with assms show ?thesis by (simp add: set_cell_def list_update_beyond)
qed

lemma cell_set_cell:
  assumes "wf_board b" "on_board r c" "on_board r' c'"
  shows "cell (set_cell b r c m) r' c' = (if r = r' \<and> c = c' then m else cell b r' c')"
proof -
  from assms have l: "unat r < 8" "unat c < 8" "unat r' < 8" "unat c' < 8"
    by (auto dest: on_board_unat)
  from assms(1) l have len: "length b = 8" "length (b ! unat r) = 8"
    by (auto simp: wf_board_def)
  show ?thesis
    using l len by (auto simp: cell_def set_cell_def nth_list_update word_unat_eq_iff)
qed

lemma board_eqI:
  assumes "wf_board b" "wf_board b'"
    and eq: "\<And>r c. on_board r c \<Longrightarrow> cell b r c = cell b' r c"
  shows "b = b'"
proof (rule nth_equalityI)
  show "length b = length b'" using assms by (simp add: wf_board_def)
next
  fix i assume i: "i < length b"
  then have i8: "i < 8" using assms by (simp add: wf_board_def)
  show "b ! i = b' ! i"
  proof (rule nth_equalityI)
    show "length (b ! i) = length (b' ! i)"
      using assms i8 by (simp add: wf_board_row)
  next
    fix j assume "j < length (b ! i)"
    then have j8: "j < 8" using assms i8 by (simp add: wf_board_row)
    have ui: "unat (of_nat i :: uint) = i" and uj: "unat (of_nat j :: uint) = j"
      using i8 j8 by (simp_all add: unat_of_nat take_bit_nat_eq_self)
    have "on_board (of_nat i) (of_nat j)"
      using ui uj i8 j8 by (simp add: on_board_def BOARD_SIZE_def uint_less_8)
    from eq [OF this] show "b ! i ! j = b' ! i ! j"
      by (simp add: cell_def ui uj)
  qed
qed


lemma weight_sum_simps [simp]:
  "weight_sum [] = 0"
  "weight_sum ((r, c) # ps) = h_func r c + weight_sum ps"
  "weight_sum (ps @ qs) = weight_sum ps + weight_sum qs"
  by (simp_all add: weight_sum_def)

lemma set_cells_simps [simp]:
  "set_cells [] m b = b"
  "set_cells ((r, c) # ps) m b = set_cells ps m (set_cell b r c m)"
  "set_cells (ps @ qs) m b = set_cells qs m (set_cells ps m b)"
  by (simp_all add: set_cells_def)

lemma wf_board_set_cells: "wf_board b \<Longrightarrow> wf_board (set_cells ps m b)"
  by (induction ps arbitrary: b) (auto simp: wf_board_set_cell)

lemma cell_set_cells:
  "wf_board b \<Longrightarrow> \<forall>p \<in> set ps. on_board (fst p) (snd p) \<Longrightarrow> on_board r c \<Longrightarrow>
   cell (set_cells ps m b) r c = (if (r, c) \<in> set ps then m else cell b r c)"
proof (induction ps arbitrary: b)
  case Nil
  then show ?case by simp
next
  case (Cons p ps)
  obtain pr pc where p: "p = (pr, pc)" by (cases p)
  from Cons.prems p have onp: "on_board pr pc" by simp
  have "cell (set_cells ps m (set_cell b pr pc m)) r c =
        (if (r, c) \<in> set ps then m else cell (set_cell b pr pc m) r c)"
    using Cons.prems by (intro Cons.IH) (simp_all add: wf_board_set_cell)
  then show ?case
    using Cons.prems(1,3) onp by (auto simp: p cell_set_cell)
qed

lemma line_loop_result:
  "line_loop b m drow dcol row2 col2 lc lht = Inr (lc', lht') \<Longrightarrow>
   lc' = [] \<or>
   (\<exists>ext. lc' = lc @ ext \<and> lht' = lht + word_of_int (weight_sum ext)
      \<and> (\<forall>p \<in> set ext. flippable b m p) \<and> length lc' \<le> max 7 (length lc))"
proof (induction b m drow dcol row2 col2 lc lht rule: line_loop.induct)
  case (1 b m drow dcol row2 col2 lc lht)
  let ?r = "row2 + drow" and ?c = "col2 + dcol"
  show ?case
  proof (cases "?r \<ge> BOARD_SIZE \<or> ?c \<ge> BOARD_SIZE \<or> cell b ?r ?c = CHR '' ''")
    case True
    with "1.prems" show ?thesis
      by (subst (asm) line_loop.simps) (simp add: Let_def)
  next
    case off: False
    show ?thesis
    proof (cases "cell b ?r ?c = m")
      case True
      with off "1.prems" have "lc' = lc \<and> lht' = lht"
        by (subst (asm) line_loop.simps) (simp add: Let_def)
      then show ?thesis by auto
    next
      case False
      with off "1.prems" have len: "length lc < unat BOARD_SIZE - 1"
        and rec: "line_loop b m drow dcol ?r ?c (lc @ [(?r, ?c)])
                    (lht + word_of_int (h_func ?r ?c)) = Inr (lc', lht')"
        by (subst (asm) line_loop.simps, simp add: Let_def split: if_splits)+
      from off False have fl: "flippable b m (?r, ?c)"
        by (simp add: flippable_def on_board_def not_le)
      from "1.IH" [OF refl refl off False _ rec] len
      consider "lc' = []"
        | ext where "lc' = (lc @ [(?r, ?c)]) @ ext"
            "lht' = lht + word_of_int (h_func ?r ?c) + word_of_int (weight_sum ext)"
            "\<forall>p \<in> set ext. flippable b m p"
            "length lc' \<le> max 7 (length (lc @ [(?r, ?c)]))"
        by auto
      then show ?thesis
      proof cases
        case 1
        then show ?thesis by simp
      next
        case 2
        with fl len have "lc' = lc @ ((?r, ?c) # ext)
            \<and> lht' = lht + word_of_int (weight_sum ((?r, ?c) # ext))
            \<and> (\<forall>p \<in> set ((?r, ?c) # ext). flippable b m p)
            \<and> length lc' \<le> max 7 (length lc)"
          by (simp add: BOARD_SIZE_def)
        then show ?thesis by blast
      qed
    qed
  qed
qed


lemma flippable_set_cells:
  assumes "wf_board b" "\<forall>q \<in> set lc. flippable b m q" "flippable (set_cells lc m b) m p"
  shows "flippable b m p \<and> p \<notin> set lc"
proof -
  obtain r c where p: "p = (r, c)" by (cases p)
  from assms(3) p have on: "on_board r c" by (simp add: flippable_def)
  from assms(2) have "\<forall>q \<in> set lc. on_board (fst q) (snd q)" by (simp add: flippable_def)
  from cell_set_cells [OF assms(1) this on, of m]
  have "cell (set_cells lc m b) r c = (if (r, c) \<in> set lc then m else cell b r c)" .
  with assms(3) p show ?thesis by (auto simp: flippable_def split: if_splits)
qed

lemma vector_loop_result:
  "vector_loop vs row col m (b, ch, ht) = Inr (b', ch', ht') \<Longrightarrow> wf_board b \<Longrightarrow>
   \<exists>ext. ch' = ch @ ext \<and> b' = set_cells ext m b \<and> ht' = ht + word_of_int (weight_sum ext)
     \<and> (\<forall>p \<in> set ext. flippable b m p) \<and> (ext \<noteq> [] \<longrightarrow> length ch' \<le> MAX_CHANGES)"
proof (induction vs arbitrary: b ch ht)
  case Nil
  then show ?case by simp
next
  case (Cons v vs)
  obtain drow dcol where v: "v = (drow, dcol)" by (cases v)
  from Cons.prems(1) v obtain lc lht where
    ll: "line_loop b m (word_of_int drow) (word_of_int dcol) row col [] 0 = Inr (lc, lht)"
    by (auto split: sum.splits)
  show ?case
  proof (cases "lc = []")
    case True
    with Cons.prems(1) v ll have "vector_loop vs row col m (b, ch, ht) = Inr (b', ch', ht')"
      by simp
    from Cons.IH [OF this Cons.prems(2)] show ?thesis .
  next
    case False
    with Cons.prems(1) v ll have len: "length ch + length lc \<le> MAX_CHANGES"
      and rec: "vector_loop vs row col m (set_cells lc m b, ch @ lc, ht + lht) = Inr (b', ch', ht')"
      by (simp_all split: if_splits)
    from line_loop_result [OF ll] False
    have lht: "lht = word_of_int (weight_sum lc)" and fl: "\<forall>p \<in> set lc. flippable b m p"
      by auto
    from Cons.IH [OF rec wf_board_set_cells [OF Cons.prems(2)]]
    obtain ext where ext: "ch' = (ch @ lc) @ ext" "b' = set_cells ext m (set_cells lc m b)"
      "ht' = ht + lht + word_of_int (weight_sum ext)"
      "\<forall>p \<in> set ext. flippable (set_cells lc m b) m p"
      "ext \<noteq> [] \<longrightarrow> length ch' \<le> MAX_CHANGES"
      by blast
    from ext(4) fl Cons.prems(2) have "\<forall>p \<in> set ext. flippable b m p"
      using flippable_set_cells by blast
    with ext fl lht len have "ch' = ch @ (lc @ ext) \<and> b' = set_cells (lc @ ext) m b
       \<and> ht' = ht + word_of_int (weight_sum (lc @ ext))
       \<and> (\<forall>p \<in> set (lc @ ext). flippable b m p)
       \<and> (lc @ ext \<noteq> [] \<longrightarrow> length ch' \<le> MAX_CHANGES)"
      by (cases "ext = []") auto
    then show ?thesis by blast
  qed
qed

lemma opponent_add_count [simp]: "opponent (players (add_count p n s) q) = opponent (players s q)"
  by (simp add: add_count_def)

lemma compute_effect_result:
  assumes "compute_effect row col player s = Inr (heur, changes, s')" "wf_board (board s)"
  shows "(\<forall>p \<in> set changes. flippable (board s) (marker (players s player)) p)
       \<and> (changes = [] \<longrightarrow> heur = 0 \<and> s' = s)
       \<and> (changes \<noteq> [] \<longrightarrow> length changes \<le> MAX_CHANGES
            \<and> heur = word_of_int (h_func row col + weight_sum changes)
            \<and> s' = placed row col player changes s)"
proof -
  let ?m = "marker (players s player)"
  from assms(1) obtain b ch ht where
    vl: "vector_loop vector row col ?m (board s, [], 0) = Inr (b, ch, ht)"
    by (auto simp: compute_effect_def split: sum.splits)
  from vector_loop_result [OF vl assms(2)]
  have r: "b = set_cells ch ?m (board s)" "ht = word_of_int (weight_sum ch)"
    "\<forall>p \<in> set ch. flippable (board s) ?m p" "ch \<noteq> [] \<longrightarrow> length ch \<le> MAX_CHANGES"
    by auto
  show ?thesis
  proof (cases "ch = []")
    case True
    with assms(1) vl r show ?thesis
      by (simp add: compute_effect_def)
  next
    case False
    with assms(1) vl r show ?thesis
      by (auto simp: compute_effect_def Let_def placed_def add.commute)
  qed
qed


lemma add_sub_count_simps [simp]:
  "board (add_count p n s) = board s"
  "board (sub_count p n s) = board s"
  "rand_stream (add_count p n s) = rand_stream s"
  "rand_stream (sub_count p n s) = rand_stream s"
  "opponent (players (sub_count p n s) q) = opponent (players s q)"
  "marker (players (add_count p n s) q) = marker (players s q)"
  "marker (players (sub_count p n s) q) = marker (players s q)"
  "ptype (players (add_count p n s) q) = ptype (players s q)"
  "ptype (players (sub_count p n s) q) = ptype (players s q)"
  "count (players (add_count p n s) q) = (if q = p then count (players s q) + n else count (players s q))"
  "count (players (sub_count p n s) q) = (if q = p then count (players s q) - n else count (players s q))"
  "add_count p n (s\<lparr>board := b\<rparr>) = (add_count p n s)\<lparr>board := b\<rparr>"
  "sub_count p n (s\<lparr>board := b\<rparr>) = (sub_count p n s)\<lparr>board := b\<rparr>"
  by (simp_all add: add_count_def sub_count_def)

lemma players_count_restore:
  "players (add_count q n (sub_count p k (sub_count q n (add_count p k s)))) = players s"
  by (rule ext) (simp add: add_count_def sub_count_def)

lemma undo_board:
  assumes wf: "wf_board b" and on: "on_board row col" and emp: "cell b row col = CHR '' ''"
    and fl: "\<forall>p \<in> set ch. flippable b m p \<and> cell b (fst p) (snd p) = om"
  shows "set_cells ch om (set_cell (set_cell (set_cells ch m b) row col m) row col (CHR '' '')) = b"
proof (rule board_eqI)
  show "wf_board (set_cells ch om (set_cell (set_cell (set_cells ch m b) row col m) row col (CHR '' '')))"
    using wf by (simp add: wf_board_set_cells wf_board_set_cell)
  show "wf_board b" by fact
next
  fix r c assume rc: "on_board r c"
  from fl have onch: "\<forall>p \<in> set ch. on_board (fst p) (snd p)" by (simp add: flippable_def)
  from fl emp have notin: "(row, col) \<notin> set ch" by (auto simp: flippable_def)
  have wf1: "wf_board (set_cells ch m b)" using wf by (rule wf_board_set_cells)
  have wf2: "wf_board (set_cell (set_cells ch m b) row col m)" using wf1 by (rule wf_board_set_cell)
  have wf3: "wf_board (set_cell (set_cell (set_cells ch m b) row col m) row col (CHR '' ''))"
    using wf2 by (rule wf_board_set_cell)
  show "cell (set_cells ch om (set_cell (set_cell (set_cells ch m b) row col m) row col (CHR '' ''))) r c
        = cell b r c"
    using fl emp notin
    by (auto simp: cell_set_cells [OF wf3 onch rc] cell_set_cell [OF wf2 on rc]
        cell_set_cell [OF wf1 on rc] cell_set_cells [OF wf onch rc])
qed

lemma undo_placed:
  assumes wf: "wf_board (board s)" and on: "on_board row col"
    and emp: "cell (board s) row col = CHR '' ''"
    and fl: "\<forall>p \<in> set ch. flippable (board s) (marker (players s player)) p
               \<and> cell (board s) (fst p) (snd p) = marker (players s (opponent (players s player)))"
  shows "undo_move row col player ch (placed row col player ch s) = s"
proof -
  let ?q = "opponent (players s player)"
  let ?n = "word_of_nat (length ch) :: uint"
  have "undo_move row col player ch (placed row col player ch s) =
        (add_count ?q ?n (sub_count player (?n + 1) (sub_count ?q ?n (add_count player (?n + 1) s))))
          \<lparr>board := set_cells ch (marker (players s ?q))
             (set_cell (set_cell (set_cells ch (marker (players s player)) (board s))
                row col (marker (players s player))) row col (CHR '' ''))\<rparr>"
    by (simp add: undo_move_def placed_def Let_def)
  also have "\<dots> = (add_count ?q ?n (sub_count player (?n + 1) (sub_count ?q ?n (add_count player (?n + 1) s))))
          \<lparr>board := board s\<rparr>"
    by (simp only: undo_board [OF wf on emp fl])
  also have "\<dots> = s"
    by (rule state.equality) (simp_all add: players_count_restore)
  finally show ?thesis .
qed

section \<open>The geometry of a line\<close>


lemma coord_step:
  assumes "(x :: uint) < 8" "d = - 1 \<or> d = 0 \<or> d = 1"
  shows "(x + word_of_int d < 8) \<longleftrightarrow> (d = 0 \<or> 1 \<le> edge_dist d x)"
    and "x + word_of_int d < 8 \<Longrightarrow> edge_dist d (x + word_of_int d) = edge_dist d x - (if d = 0 then 0 else 1)"
    and "x + word_of_int d < 8 \<Longrightarrow> uint (x + word_of_int d) = uint x + d"
    and "edge_dist d x \<le> 7"
  using uint_less_8_cases [OF assms(1)] assms(2)
  by (auto simp: edge_dist_def)

lemma vector_cases:
  "d \<in> set vector \<Longrightarrow> (fst d = - 1 \<or> fst d = 0 \<or> fst d = 1) \<and> (snd d = - 1 \<or> snd d = 0 \<or> snd d = 1)
      \<and> (fst d \<noteq> 0 \<or> snd d \<noteq> 0)"
  by (auto simp: vector_def)

lemma avail_step:
  assumes "on_board r c" "d \<in> set vector"
  shows "on_board (r + word_of_int (fst d)) (c + word_of_int (snd d)) \<longleftrightarrow> 1 \<le> avail d r c"
    and "on_board (r + word_of_int (fst d)) (c + word_of_int (snd d)) \<Longrightarrow>
           avail d (r + word_of_int (fst d)) (c + word_of_int (snd d)) = avail d r c - 1"
    and "avail d r c \<le> 7"
proof -
  from assms(1) have r: "r < 8" and c: "c < 8" by (simp_all add: on_board_def BOARD_SIZE_def)
  note v = vector_cases [OF assms(2)]
  from v have dr: "fst d = - 1 \<or> fst d = 0 \<or> fst d = 1" and dc: "snd d = - 1 \<or> snd d = 0 \<or> snd d = 1"
    and nz: "fst d \<noteq> 0 \<or> snd d \<noteq> 0" by auto
  note sr = coord_step [OF r dr] and sc = coord_step [OF c dc]
  show "on_board (r + word_of_int (fst d)) (c + word_of_int (snd d)) \<longleftrightarrow> 1 \<le> avail d r c"
    using sr(1) sc(1) sr(4) sc(4) nz
    by (auto simp: on_board_def BOARD_SIZE_def avail_def edge_dist_def)
  show "avail d (r + word_of_int (fst d)) (c + word_of_int (snd d)) = avail d r c - 1"
    if "on_board (r + word_of_int (fst d)) (c + word_of_int (snd d))"
  proof -
    from that have "r + word_of_int (fst d) < 8" "c + word_of_int (snd d) < 8"
      by (simp_all add: on_board_def BOARD_SIZE_def)
    from sr(2) [OF this(1)] sc(2) [OF this(2)]
    have a: "edge_dist (fst d) (r + word_of_int (fst d))
               = edge_dist (fst d) r - (if fst d = 0 then 0 else 1)"
      and b: "edge_dist (snd d) (c + word_of_int (snd d))
               = edge_dist (snd d) c - (if snd d = 0 then 0 else 1)" .
    have e0: "fst d = 0 \<Longrightarrow> edge_dist (fst d) r = 7" "snd d = 0 \<Longrightarrow> edge_dist (snd d) c = 7"
      by (simp_all add: edge_dist_def)
    show ?thesis
      unfolding avail_def a b using sr(4) sc(4) nz e0
      by (cases "fst d = 0"; cases "snd d = 0") auto
  qed
  show "avail d r c \<le> 7" using sr(4) by (simp add: avail_def)
qed


lemma line_loop_total:
  assumes "d \<in> set vector"
  shows "on_board r2 c2 \<Longrightarrow> avail d r2 c2 = n \<Longrightarrow> length lc + n \<le> 7 \<Longrightarrow>
         \<exists>lc' lht'. line_loop b m (word_of_int (fst d)) (word_of_int (snd d)) r2 c2 lc lht = Inr (lc', lht')
            \<and> (lc' \<noteq> [] \<longrightarrow> length lc' < length lc + n)"
proof (induction n arbitrary: r2 c2 lc lht)
  case 0
  with avail_step(1) [OF "0.prems"(1) assms]
  have "\<not> on_board (r2 + word_of_int (fst d)) (c2 + word_of_int (snd d))" by simp
  then show ?case
    by (subst line_loop.simps) (auto simp: Let_def on_board_def not_less)
next
  case (Suc n)
  let ?r = "r2 + word_of_int (fst d)" and ?c = "c2 + word_of_int (snd d)"
  from Suc.prems avail_step(1) [OF Suc.prems(1) assms]
  have on: "on_board ?r ?c" by simp
  from avail_step(2) [OF Suc.prems(1) assms on] Suc.prems(2)
  have av: "avail d ?r ?c = n" by simp
  from Suc.prems(3) have len: "length (lc @ [(?r, ?c)]) + n \<le> 7" by simp
  from Suc.IH [OF on av len, of "lht + word_of_int (h_func ?r ?c)"]
  obtain lc' lht' where
    rec: "line_loop b m (word_of_int (fst d)) (word_of_int (snd d)) ?r ?c (lc @ [(?r, ?c)])
            (lht + word_of_int (h_func ?r ?c)) = Inr (lc', lht')"
    and bound: "lc' \<noteq> [] \<longrightarrow> length lc' < length (lc @ [(?r, ?c)]) + n"
    by blast
  from on have nb: "\<not> (BOARD_SIZE \<le> ?r \<or> BOARD_SIZE \<le> ?c)"
    by (simp add: on_board_def not_le)
  from Suc.prems(3) have l7: "length lc < unat BOARD_SIZE - 1" by (simp add: BOARD_SIZE_def)
  show ?case
    using nb l7 rec bound
    by (subst line_loop.simps) (auto simp: Let_def)
qed

lemma line_loop_start:
  assumes "d \<in> set vector" "on_board row col"
  shows "\<exists>lc lht. line_loop b m (word_of_int (fst d)) (word_of_int (snd d)) row col [] 0 = Inr (lc, lht)
            \<and> length lc \<le> cap row col d \<and> length lc \<le> 6"
proof -
  from avail_step(3) [OF assms(2,1)] have "length ([] :: coord list) + avail d row col \<le> 7" by simp
  from line_loop_total [OF assms(1,2) refl this, of b m 0] avail_step(3) [OF assms(2,1)]
  show ?thesis unfolding cap_def by fastforce
qed

lemma cap_total: "on_board row col \<Longrightarrow> sum_list (map (cap row col) vector) \<le> 19"
proof -
  assume "on_board row col"
  then have "row < 8" "col < 8" by (simp_all add: on_board_def BOARD_SIZE_def)
  from uint_less_8_cases [OF this(1)] uint_less_8_cases [OF this(2)]
  show ?thesis
    by (elim disjE) (simp_all add: cap_def avail_def edge_dist_def vector_def)
qed

lemma vector_loop_total:
  "on_board row col \<Longrightarrow> set vs \<subseteq> set vector \<Longrightarrow>
   length ch + sum_list (map (cap row col) vs) \<le> MAX_CHANGES \<Longrightarrow>
   \<exists>res. vector_loop vs row col m (b, ch, ht) = Inr res"
proof (induction vs arbitrary: b ch ht)
  case Nil
  then show ?case by simp
next
  case (Cons v vs)
  obtain drow dcol where v: "v = (drow, dcol)" by (cases v)
  from Cons.prems(2) have vin: "v \<in> set vector" and sub: "set vs \<subseteq> set vector" by auto
  from line_loop_start [OF vin Cons.prems(1), of b m] v obtain lc lht where
    ll: "line_loop b m (word_of_int drow) (word_of_int dcol) row col [] 0 = Inr (lc, lht)"
    and len: "length lc \<le> cap row col v" by auto
  from Cons.prems(3) len have l1: "length ch + length lc \<le> MAX_CHANGES"
    and l2: "length (ch @ lc) + sum_list (map (cap row col) vs) \<le> MAX_CHANGES"
    and l3: "length ch + sum_list (map (cap row col) vs) \<le> MAX_CHANGES"
    by simp_all
  show ?case
    using ll l1 Cons.IH [OF Cons.prems(1) sub l2] Cons.IH [OF Cons.prems(1) sub l3]
    by (simp add: v)
qed

lemma compute_effect_total:
  assumes "on_board row col"
  shows "\<exists>heur changes s'. compute_effect row col player s = Inr (heur, changes, s')"
proof -
  from cap_total [OF assms]
  have "length ([] :: coord list) + sum_list (map (cap row col) vector) \<le> MAX_CHANGES"
    by (simp add: MAX_CHANGES_def)
  from vector_loop_total [OF assms subset_refl this]
  obtain b ch ht where
    "vector_loop vector row col (marker (players s player)) (board s, [], 0) = Inr (b, ch, ht)"
    by (metis prod_cases3)
  then show ?thesis
    by (simp add: compute_effect_def Let_def)
qed

section \<open>The flips of a move\<close>

lemma line_loop_distinct:
  assumes "d \<in> set vector"
  shows "on_board r2 c2 \<Longrightarrow> avail d r2 c2 = n \<Longrightarrow>
         line_loop b m (word_of_int (fst d)) (word_of_int (snd d)) r2 c2 lc lht = Inr (lc', lht') \<Longrightarrow>
         lc' \<noteq> [] \<Longrightarrow>
         \<exists>ext. lc' = lc @ ext \<and> distinct ext \<and> (\<forall>p \<in> set ext. avail d (fst p) (snd p) < n)"
proof (induction n arbitrary: r2 c2 lc lht)
  case 0
  with avail_step(1) [OF "0.prems"(1) assms]
  have "\<not> on_board (r2 + word_of_int (fst d)) (c2 + word_of_int (snd d))" by simp
  with "0.prems"(3,4) show ?case
    by (subst (asm) line_loop.simps) (auto simp: Let_def on_board_def not_less)
next
  case (Suc n)
  let ?r = "r2 + word_of_int (fst d)" and ?c = "c2 + word_of_int (snd d)"
  from Suc.prems avail_step(1) [OF Suc.prems(1) assms]
  have on: "on_board ?r ?c" by simp
  from avail_step(2) [OF Suc.prems(1) assms on] Suc.prems(2)
  have av: "avail d ?r ?c = n" by simp
  from on have nb: "\<not> (BOARD_SIZE \<le> ?r \<or> BOARD_SIZE \<le> ?c)"
    by (simp add: on_board_def not_le)
  show ?case
  proof (cases "cell b ?r ?c = m")
    case True
    with Suc.prems(3,4) nb have "lc' = lc"
      by (subst (asm) line_loop.simps) (auto simp: Let_def split: if_splits)
    then show ?thesis by simp
  next
    case False
    with Suc.prems(3,4) nb
    have rec: "line_loop b m (word_of_int (fst d)) (word_of_int (snd d)) ?r ?c (lc @ [(?r, ?c)])
            (lht + word_of_int (h_func ?r ?c)) = Inr (lc', lht')"
      by (subst (asm) line_loop.simps) (auto simp: Let_def split: if_splits)
    from Suc.IH [OF on av rec Suc.prems(4)] obtain ext where
      ext: "lc' = (lc @ [(?r, ?c)]) @ ext" "distinct ext" "\<forall>p \<in> set ext. avail d (fst p) (snd p) < n"
      by blast
    from ext(3) av have "(?r, ?c) \<notin> set ext" by auto
    with ext av have "lc' = lc @ ((?r, ?c) # ext) \<and> distinct ((?r, ?c) # ext)
        \<and> (\<forall>p \<in> set ((?r, ?c) # ext). avail d (fst p) (snd p) < Suc n)"
      by auto
    then show ?thesis by blast
  qed
qed

lemma vector_loop_distinct:
  "on_board row col \<Longrightarrow> set vs \<subseteq> set vector \<Longrightarrow> wf_board b \<Longrightarrow>
   vector_loop vs row col m (b, ch, ht) = Inr (b', ch', ht') \<Longrightarrow>
   \<exists>ext. ch' = ch @ ext \<and> distinct ext"
proof (induction vs arbitrary: b ch ht)
  case Nil
  then show ?case by simp
next
  case (Cons v vs)
  obtain drow dcol where v: "v = (drow, dcol)" by (cases v)
  from Cons.prems(2) have vin: "v \<in> set vector" and sub: "set vs \<subseteq> set vector" by auto
  from Cons.prems(4) v obtain lc lht where
    ll: "line_loop b m (word_of_int drow) (word_of_int dcol) row col [] 0 = Inr (lc, lht)"
    by (auto split: sum.splits)
  show ?case
  proof (cases "lc = []")
    case True
    with Cons.prems(4) v ll have "vector_loop vs row col m (b, ch, ht) = Inr (b', ch', ht')"
      by simp
    from Cons.IH [OF Cons.prems(1) sub Cons.prems(3) this] show ?thesis .
  next
    case False
    with Cons.prems(4) v ll
    have rec: "vector_loop vs row col m (set_cells lc m b, ch @ lc, ht + lht) = Inr (b', ch', ht')"
      by (simp_all split: if_splits)
    from line_loop_distinct [OF vin Cons.prems(1) refl, of b m "[]" 0 lc lht] ll v False
    have dl: "distinct lc" by auto
    from line_loop_result [OF ll] False have fl: "\<forall>p \<in> set lc. flippable b m p" by auto
    note wf1 = wf_board_set_cells [OF Cons.prems(3), of lc m]
    from Cons.IH [OF Cons.prems(1) sub wf1 rec] obtain ext where
      ext: "ch' = (ch @ lc) @ ext" "distinct ext" by blast
    from vector_loop_result [OF rec wf1] ext(1)
    have "\<forall>p \<in> set ext. flippable (set_cells lc m b) m p" by auto
    with flippable_set_cells [OF Cons.prems(3) fl] have "set lc \<inter> set ext = {}" by blast
    with ext dl have "ch' = ch @ (lc @ ext) \<and> distinct (lc @ ext)" by simp
    then show ?thesis by blast
  qed
qed

lemma compute_effect_distinct:
  assumes "compute_effect row col player s = Inr (heur, changes, s')" "wf_board (board s)"
    "on_board row col"
  shows "distinct changes"
proof -
  from assms(1) obtain b ht where
    "vector_loop vector row col (marker (players s player)) (board s, [], 0) = Inr (b, changes, ht)"
    by (auto simp: compute_effect_def Let_def split: sum.splits if_splits)
  from vector_loop_distinct [OF assms(3) subset_refl assms(2) this] show ?thesis by simp
qed

lemma valid_board_cell:
  assumes "valid_board b m om" "on_board r c"
  shows "cell b r c = CHR '' '' \<or> cell b r c = m \<or> cell b r c = om"
proof -
  from assms(2) have l: "unat r < 8" "unat c < 8" by (auto dest: on_board_unat)
  from assms(1) have wf: "wf_board b" by (simp add: valid_board_def)
  with l have "b ! unat r \<in> set b" "length (b ! unat r) = 8" by (simp_all add: wf_board_def)
  with l have "b ! unat r ! unat c \<in> set (b ! unat r)" by simp
  with assms(1) \<open>b ! unat r \<in> set b\<close> show ?thesis
    unfolding valid_board_def cell_def by blast
qed

lemma h_func_bounds: "1 \<le> h_func r c \<and> h_func r c \<le> 64"
  by (simp add: h_func_def idx_weight_def)

lemma weight_sum_bounds: "int (length ps) \<le> weight_sum ps \<and> weight_sum ps \<le> 64 * int (length ps)"
proof (induction ps)
  case Nil
  then show ?case by simp
next
  case (Cons p ps)
  obtain r c where "p = (r, c)" by (cases p)
  with Cons h_func_bounds [of r c] show ?case by simp
qed

lemma sint_small: "0 \<le> x \<Longrightarrow> x \<le> 1344 \<Longrightarrow> sint (word_of_int x :: uint) = x"
  by (simp add: signed_of_int signed_take_bit_int_eq_self)

lemma sint_heur:
  assumes "length changes \<le> MAX_CHANGES"
  shows "sint (word_of_int (h_func row col + weight_sum changes) :: uint)
           = h_func row col + weight_sum changes"
    and "1 + int (length changes) \<le> h_func row col + weight_sum changes"
proof -
  from assms weight_sum_bounds [of changes] h_func_bounds [of row col]
  have b: "1 + int (length changes) \<le> h_func row col + weight_sum changes"
    "h_func row col + weight_sum changes \<le> 1344"
    by (simp_all add: MAX_CHANGES_def)
  then show "sint (word_of_int (h_func row col + weight_sum changes) :: uint)
           = h_func row col + weight_sum changes"
    by (intro sint_small) simp_all
  from b show "1 + int (length changes) \<le> h_func row col + weight_sum changes" by simp
qed

lemma vector_loop_no_yield:
  "\<forall>d \<in> set vs. \<exists>t. line_loop b m (word_of_int (fst d)) (word_of_int (snd d)) row col [] 0 = Inr ([], t)
   \<Longrightarrow> vector_loop vs row col m (b, ch, ht) = Inr (b, ch, ht)"
proof (induction vs)
  case Nil
  then show ?case by simp
next
  case (Cons v vs)
  obtain drow dcol where v: "v = (drow, dcol)" by (cases v)
  from Cons.prems v obtain t where
    "line_loop b m (word_of_int drow) (word_of_int dcol) row col [] 0 = Inr ([], t)" by auto
  with Cons v show ?case by simp
qed

section \<open>The search leaves the game as it found it\<close>

lemma same_game_refl [simp]: "same_game s s"
  by (simp add: same_game_def)

lemma same_game_trans: "same_game s s' \<Longrightarrow> same_game s' s'' \<Longrightarrow> same_game s s''"
  by (simp add: same_game_def)

lemma same_game_rand [simp]: "same_game s (s\<lparr>rand_stream := r\<rparr>)"
  by (simp add: same_game_def)

lemma same_game_eq: "same_game s s' \<Longrightarrow> s' = s\<lparr>rand_stream := rand_stream s'\<rparr>"
  by (rule state.equality) (simp_all add: same_game_def)

lemma valid_state_same_game: "valid_state s \<Longrightarrow> same_game s s' \<Longrightarrow> valid_state s'"
  by (simp add: valid_state_def same_game_def)

lemma same_game_choose_result: "same_game s (snd (snd (choose_result rtn lv s)))"
  by (simp add: choose_result_def rand_def same_game_def Let_def split: prod.splits)

lemma all_cells_on_board: "p \<in> set all_cells \<Longrightarrow> on_board (fst p) (snd p)"
  by (auto simp: all_cells_def on_board_def BOARD_SIZE_def)

lemma valid_board_wf: "valid_board b m om \<Longrightarrow> wf_board b"
  by (simp add: valid_board_def)

lemma valid_board_set_cell:
  assumes "valid_board b m om" "ch = CHR '' '' \<or> ch = m \<or> ch = om"
  shows "valid_board (set_cell b r c ch) m om"
proof -
  let ?P = "\<lambda>x. x = CHR '' '' \<or> x = m \<or> x = om"
  from assms(1) have wf: "wf_board b" by (rule valid_board_wf)
  from assms(1) have all: "\<And>row x. row \<in> set b \<Longrightarrow> x \<in> set row \<Longrightarrow> ?P x"
    unfolding valid_board_def by blast
  have "?P x" if "row \<in> set (set_cell b r c ch)" "x \<in> set row" for row x
  proof (cases "unat r < length b")
    case True
    from that(1) have "row \<in> insert ((b ! unat r)[unat c := ch]) (set b)"
      unfolding set_cell_def using set_update_subset_insert by fast
    then show ?thesis
    proof
      assume "row = (b ! unat r)[unat c := ch]"
      with that(2) have "x \<in> insert ch (set (b ! unat r))"
        using set_update_subset_insert by fast
      with True all [of "b ! unat r" x] assms(2) show ?thesis by auto
    next
      assume "row \<in> set b"
      with that(2) all show ?thesis by blast
    qed
  next
    case False
    with that have "row \<in> set b" by (simp add: set_cell_def list_update_beyond)
    with that(2) all show ?thesis by blast
  qed
  with wf_board_set_cell [OF wf, of r c ch] show ?thesis
    unfolding valid_board_def by blast
qed

lemma valid_board_set_cells:
  "valid_board b m om \<Longrightarrow> ch = CHR '' '' \<or> ch = m \<or> ch = om \<Longrightarrow> valid_board (set_cells ps ch b) m om"
  by (induction ps arbitrary: b) (auto simp: valid_board_set_cell)

lemma valid_state_wf: "valid_state s \<Longrightarrow> wf_board (board s)"
  by (simp add: valid_state_def valid_board_def)

lemma valid_state_opponent: "valid_state s \<Longrightarrow> opponent (players s p) \<noteq> p"
  by (cases p) (simp_all add: valid_state_def)

lemma valid_state_board:
  assumes "valid_state s"
  shows "valid_board (board s) (marker (players s p)) (marker (players s (opponent (players s p))))"
  using assms by (cases p) (auto simp: valid_state_def valid_board_def)

lemma valid_state_compute_effect:
  assumes "valid_state s" "compute_effect row col player s = Inr (heur, changes, s1)"
  shows "valid_state s1"
proof (cases "changes = []")
  case True
  with compute_effect_result [OF assms(2) valid_state_wf [OF assms(1)]] assms(1)
  show ?thesis by simp
next
  case False
  with compute_effect_result [OF assms(2) valid_state_wf [OF assms(1)]]
  have s1: "s1 = placed row col player changes s" by simp
  from assms(1) have vb: "valid_board (board s) (marker (players s X_DATA)) (marker (players s O_DATA))"
    by (simp add: valid_state_def)
  have m: "marker (players s player) = CHR '' '' \<or> marker (players s player) = marker (players s X_DATA)
      \<or> marker (players s player) = marker (players s O_DATA)"
    by (cases player) simp_all
  from valid_board_set_cell [OF valid_board_set_cells [OF vb m] m]
  have "valid_board (board s1) (marker (players s X_DATA)) (marker (players s O_DATA))"
    by (simp add: s1 placed_def)
  with assms(1) show ?thesis
    by (simp add: valid_state_def s1 placed_def)
qed

lemma undo_move_rand:
  "undo_move i j player changes (s\<lparr>rand_stream := r\<rparr>) = (undo_move i j player changes s)\<lparr>rand_stream := r\<rparr>"
  by (simp add: undo_move_def Let_def add_count_def sub_count_def)

lemma undo_same_game:
  assumes vs: "valid_state s" and on: "on_board i j" and emp: "cell (board s) i j = CHR '' ''"
    and ce: "compute_effect i j player s = Inr (heur, changes, s1)" and ne: "changes \<noteq> []"
    and sg: "same_game s1 s2"
  shows "undo_move i j player changes s2 = s\<lparr>rand_stream := rand_stream s2\<rparr>"
proof -
  let ?m = "marker (players s player)"
  let ?om = "marker (players s (opponent (players s player)))"
  note wf = valid_state_wf [OF vs]
  note r = compute_effect_result [OF ce wf]
  from r ne have s1: "s1 = placed i j player changes s" by simp
  have "\<forall>p \<in> set changes. flippable (board s) ?m p \<and> cell (board s) (fst p) (snd p) = ?om"
  proof
    fix p assume "p \<in> set changes"
    with r have fl: "flippable (board s) ?m p" by simp
    then have "on_board (fst p) (snd p)" by (simp add: flippable_def)
    from valid_board_cell [OF valid_state_board [OF vs] this] fl
    show "flippable (board s) ?m p \<and> cell (board s) (fst p) (snd p) = ?om"
      by (auto simp: flippable_def)
  qed
  from undo_placed [OF wf on emp this] s1 have u: "undo_move i j player changes s1 = s" by simp
  from same_game_eq [OF sg] have "s2 = s1\<lparr>rand_stream := rand_stream s2\<rparr>" .
  then have "undo_move i j player changes s2
               = undo_move i j player changes (s1\<lparr>rand_stream := rand_stream s2\<rparr>)"
    by (rule arg_cong)
  then have "undo_move i j player changes s2
               = (undo_move i j player changes s1)\<lparr>rand_stream := rand_stream s2\<rparr>"
    by (simp only: undo_move_rand)
  with u show ?thesis by simp
qed

lemma trial_move_cases:
  assumes "trial_move i j player ply max_ply lv s = Inr (r, s2)"
  obtains (zero) heur where "compute_effect i j player s = Inr (heur, [], s2)" "r = None"
  | (leaf) heur changes where "compute_effect i j player s = Inr (heur, changes, s2)"
      "changes \<noteq> []"
      "\<not> (ply < max_ply \<and> count (players s2 player)
            + count (players s2 (opponent (players s2 player))) < BOARD_AREA)"
      "r = Some (sint heur, chain_ptr lv, changes)"
  | (rec) heur changes s1 v chain where "compute_effect i j player s = Inr (heur, changes, s1)"
      "changes \<noteq> []"
      "ply < max_ply" "count (players s1 player)
            + count (players s1 (opponent (players s1 player))) < BOARD_AREA"
      "best_move True (opponent (players s1 player)) (ply + 1) max_ply (sint heur) (max_effect lv) s1
         = Inr (v, chain, s2)"
      "sint heur - v > INIT_MAX_EFFECT"
      "r = Some (sint heur - v, (case chain of None \<Rightarrow> chain_ptr lv | Some c \<Rightarrow> c), changes)"
  using assms
  by (subst (asm) trial_move.simps) (auto split: sum.splits prod.splits if_splits)

lemma frame_induct:
  "valid_state s \<longrightarrow> (\<forall>v c s'. best_move rtn player ply max_ply prev_move_val best_sibling s = Inr (v, c, s')
       \<longrightarrow> same_game s s')"
  "valid_state s \<longrightarrow> (\<forall>p \<in> set cs. on_board (fst p) (snd p)) \<longrightarrow>
     (\<forall>lv' s'. cell_loop cs player ply max_ply prev_move_val best_sibling lv s = Inr (lv', s')
       \<longrightarrow> same_game s s')"
  "valid_state s \<longrightarrow> on_board i j \<longrightarrow> cell (board s) i j = CHR '' '' \<longrightarrow>
     (\<forall>r s2. trial_move i j player ply max_ply lv s = Inr (r, s2) \<longrightarrow>
        (case r of None \<Rightarrow> s2 = s
         | Some (effect, chain, changes) \<Rightarrow>
             undo_move i j player changes s2 = s\<lparr>rand_stream := rand_stream s2\<rparr>))"
proof (induction rtn player ply max_ply prev_move_val best_sibling s
    and cs player ply max_ply prev_move_val best_sibling lv s
    and i j player ply max_ply lv s
    rule: best_move_cell_loop_trial_move.induct)
  case (1 rtn player ply max_ply prev_move_val best_sibling s)
  show ?case
  proof (intro impI allI)
    fix v c s'
    assume vs: "valid_state s"
      and bm: "best_move rtn player ply max_ply prev_move_val best_sibling s = Inr (v, c, s')"
    from bm obtain lv s1 where
      cl: "cell_loop all_cells player ply max_ply prev_move_val best_sibling init_vars s = Inr (lv, s1)"
      and res: "(v, c, s') = choose_result rtn lv s1"
      by (subst (asm) best_move.simps) (auto split: sum.splits)
    from "1.IH" vs cl all_cells_on_board have "same_game s s1" by blast
    moreover from res same_game_choose_result [of s1 rtn lv] have "same_game s1 s'"
      by (metis snd_conv)
    ultimately show "same_game s s'" by (rule same_game_trans)
  qed
next
  case (2 player ply max_ply prev_move_val best_sibling lv s)
  show ?case by simp
next
  case (3 i j cs player ply max_ply prev_move_val best_sibling lv s)
  show ?case
  proof (intro impI allI)
    fix lv' s'
    assume vs: "valid_state s"
      and on: "\<forall>p \<in> set ((i, j) # cs). on_board (fst p) (snd p)"
      and cl: "cell_loop ((i, j) # cs) player ply max_ply prev_move_val best_sibling lv s = Inr (lv', s')"
    from on have onij: "on_board i j" and oncs: "\<forall>p \<in> set cs. on_board (fst p) (snd p)" by simp_all
    show "same_game s s'"
    proof (cases "done_flag lv")
      case True
      with cl show ?thesis by simp
    next
      case nd: False
      show ?thesis
      proof (cases "cell (board s) i j \<noteq> CHR '' ''")
        case True
        with nd cl have "cell_loop cs player ply max_ply prev_move_val best_sibling lv s = Inr (lv', s')"
          by simp
        with "3.IH"(1) [OF nd True] vs oncs show ?thesis by blast
      next
        case emp: False
        with nd cl obtain r s2 where tm: "trial_move i j player ply max_ply lv s = Inr (r, s2)"
          by (auto split: sum.splits)
        from "3.IH"(2) [OF nd emp] vs onij emp tm
        have R: "case r of None \<Rightarrow> s2 = s
           | Some (effect, chain, changes) \<Rightarrow>
               undo_move i j player changes s2 = s\<lparr>rand_stream := rand_stream s2\<rparr>"
          by blast
        show ?thesis
        proof (cases r)
          case None
          with R have s2: "s2 = s" by simp
          from nd emp tm None cl
          have "cell_loop cs player ply max_ply prev_move_val best_sibling lv s2 = Inr (lv', s')"
            by simp
          with "3.IH"(3) [OF nd emp tm refl None] vs oncs s2 show ?thesis by blast
        next
          case (Some t)
          obtain effect chain changes where t: "t = (effect, chain, changes)" by (cases t)
          let ?s3 = "undo_move i j player changes s2"
          from R Some t have s3: "?s3 = s\<lparr>rand_stream := rand_stream s2\<rparr>" by simp
          then have sg: "same_game s ?s3" by simp
          from nd emp tm Some t cl
          have "cell_loop cs player ply max_ply prev_move_val best_sibling
                  (record_move ply prev_move_val best_sibling i j effect (lv\<lparr>chain_ptr := chain\<rparr>)) ?s3
                = Inr (lv', s')"
            by simp
          with "3.IH"(4) [OF nd emp tm refl Some t [symmetric] refl]
            valid_state_same_game [OF vs sg] oncs
          have "same_game ?s3 s'" by blast
          with sg show ?thesis by (rule same_game_trans)
        qed
      qed
    qed
  qed
next
  case (4 i j player ply max_ply lv s)
  show ?case
  proof (intro impI allI)
    fix r s2
    assume vs: "valid_state s" and on: "on_board i j" and emp: "cell (board s) i j = CHR '' ''"
      and tm: "trial_move i j player ply max_ply lv s = Inr (r, s2)"
    from tm show "case r of None \<Rightarrow> s2 = s
       | Some (effect, chain, changes) \<Rightarrow>
           undo_move i j player changes s2 = s\<lparr>rand_stream := rand_stream s2\<rparr>"
    proof (cases rule: trial_move_cases)
      case (zero heur)
      with compute_effect_result [OF zero(1) valid_state_wf [OF vs]] show ?thesis by simp
    next
      case (leaf heur changes)
      from undo_same_game [OF vs on emp leaf(1,2) same_game_refl] leaf(4) show ?thesis by simp
    next
      case (rec heur changes s1 v chain)
      from rec(2,3,4) have "length changes \<noteq> 0"
        and c: "ply < max_ply \<and> count (players s1 player)
            + count (players s1 (opponent (players s1 player))) < BOARD_AREA" by simp_all
      from "4.IH" [OF rec(1) refl refl this] rec(5) valid_state_compute_effect [OF vs rec(1)]
      have "same_game s1 s2" by blast
      from undo_same_game [OF vs on emp rec(1,2) this] rec(7) show ?thesis by simp
    qed
  qed
qed

lemma compute_effect_zero_yield:
  assumes "on_board row col"
    and "\<forall>d \<in> set vector. line_yield (board s) (marker (players s player)) row col d = []"
  shows "compute_effect row col player s = Inr (0, [], s)"
proof -
  let ?m = "marker (players s player)"
  have "\<forall>d \<in> set vector. \<exists>t. line_loop (board s) ?m (word_of_int (fst d)) (word_of_int (snd d))
                                   row col [] 0 = Inr ([], t)"
  proof
    fix d assume d: "d \<in> set vector"
    from line_loop_start [OF d assms(1), of "board s" ?m] obtain lc lht where
      ll: "line_loop (board s) ?m (word_of_int (fst d)) (word_of_int (snd d)) row col [] 0 = Inr (lc, lht)"
      by blast
    with assms(2) d have "lc = []" by (auto simp: line_yield_def)
    with ll show "\<exists>t. line_loop (board s) ?m (word_of_int (fst d)) (word_of_int (snd d))
                        row col [] 0 = Inr ([], t)" by blast
  qed
  from vector_loop_no_yield [OF this]
  have "vector_loop vector row col ?m (board s, [], 0) = Inr (board s, [], 0)" .
  then show ?thesis by (simp add: compute_effect_def)
qed

lemma cell_loop_no_legal_move:
  assumes "no_legal_move player s"
  shows "set cs \<subseteq> set all_cells \<Longrightarrow>
         cell_loop cs player ply max_ply prev_move_val best_sibling lv s = Inr (lv, s)"
proof (induction cs)
  case Nil
  show ?case by simp
next
  case (Cons c cs)
  obtain i j where c: "c = (i, j)" by (cases c)
  from Cons.prems c have mem: "(i, j) \<in> set all_cells" and sub: "set cs \<subseteq> set all_cells" by auto
  note IH = Cons.IH [OF sub]
  show ?case
  proof (cases "cell (board s) i j = CHR '' ''")
    case True
    with assms mem
    have "\<forall>d \<in> set vector. line_yield (board s) (marker (players s player)) i j d = []"
      unfolding no_legal_move_def by fastforce
    from compute_effect_zero_yield [OF _ this] all_cells_on_board [OF mem]
    have "compute_effect i j player s = Inr (0, [], s)" by simp
    then have "trial_move i j player ply max_ply lv s = Inr (None, s)"
      by (subst trial_move.simps) simp
    with True IH show ?thesis by (simp add: c)
  next
    case False
    with IH show ?thesis by (simp add: c)
  qed
qed

lemma best_move_no_legal_move:
  assumes "no_legal_move player s"
  shows "best_move True player ply max_ply prev_move_val best_sibling s = Inr (0, Some [], s)"
  by (subst best_move.simps)
     (simp add: cell_loop_no_legal_move [OF assms subset_refl] choose_result_def init_vars_def)

lemma cell_loop_leaf_total:
  assumes "\<not> ply < max_ply"
  shows "valid_state s \<Longrightarrow> \<forall>p \<in> set cs. on_board (fst p) (snd p) \<Longrightarrow>
         \<exists>lv' s'. cell_loop cs player ply max_ply prev_move_val best_sibling lv s = Inr (lv', s')"
proof (induction cs arbitrary: lv s)
  case Nil
  show ?case by simp
next
  case (Cons c cs)
  obtain i j where c: "c = (i, j)" by (cases c)
  from Cons.prems c have on: "on_board i j" and oncs: "\<forall>p \<in> set cs. on_board (fst p) (snd p)"
    by simp_all
  note IH = Cons.IH [OF _ oncs]
  show ?case
  proof (cases "done_flag lv \<or> cell (board s) i j \<noteq> CHR '' ''")
    case True
    with IH [OF Cons.prems(1), of lv] show ?thesis by (auto simp: c)
  next
    case False
    then have nd: "\<not> done_flag lv" and emp: "cell (board s) i j = CHR '' ''" by simp_all
    from compute_effect_total [OF on, of player s] obtain heur changes s1 where
      ce: "compute_effect i j player s = Inr (heur, changes, s1)" by blast
    show ?thesis
    proof (cases "changes = []")
      case True
      with ce compute_effect_result [OF ce valid_state_wf [OF Cons.prems(1)]]
      have "trial_move i j player ply max_ply lv s = Inr (None, s)"
        by (subst trial_move.simps) simp
      with nd emp IH [OF Cons.prems(1), of lv] show ?thesis by (simp add: c)
    next
      case ne: False
      with ce assms
      have tm: "trial_move i j player ply max_ply lv s = Inr (Some (sint heur, chain_ptr lv, changes), s1)"
        by (subst trial_move.simps) simp
      from undo_same_game [OF Cons.prems(1) on emp ce ne same_game_refl]
      have "same_game s (undo_move i j player changes s1)" by simp
      from IH [OF valid_state_same_game [OF Cons.prems(1) this]] nd emp tm
      show ?thesis by (simp add: c)
    qed
  qed
qed

lemma best_move_leaf_total:
  assumes "\<not> ply < max_ply" "valid_state s"
  shows "\<exists>v c s'. best_move rtn player ply max_ply prev_move_val best_sibling s = Inr (v, c, s')"
proof -
  from cell_loop_leaf_total [OF assms, of all_cells player prev_move_val best_sibling init_vars]
    all_cells_on_board
  obtain lv' s' where
    "cell_loop all_cells player ply max_ply prev_move_val best_sibling init_vars s = Inr (lv', s')"
    by blast
  then show ?thesis
    by (subst best_move.simps) (simp, metis prod_cases3)
qed

section \<open>Candidates\<close>

lemma vector_loop_some_yield:
  "wf_board b \<Longrightarrow> vector_loop vs row col m (b, ch, ht) = Inr (b', ch', ht') \<Longrightarrow>
   \<exists>d \<in> set vs. line_yield b m row col d \<noteq> [] \<Longrightarrow> ch' \<noteq> ch"
proof (induction vs arbitrary: ch ht)
  case Nil
  then show ?case by simp
next
  case (Cons v vs)
  obtain drow dcol where v: "v = (drow, dcol)" by (cases v)
  from Cons.prems(2) v obtain lc lht where
    ll: "line_loop b m (word_of_int drow) (word_of_int dcol) row col [] 0 = Inr (lc, lht)"
    by (auto split: sum.splits)
  then have y: "line_yield b m row col v = lc" by (simp add: line_yield_def v)
  show ?case
  proof (cases "lc = []")
    case True
    with Cons.prems(2) v ll have "vector_loop vs row col m (b, ch, ht) = Inr (b', ch', ht')"
      by simp
    moreover from Cons.prems(3) y True have "\<exists>d \<in> set vs. line_yield b m row col d \<noteq> []" by auto
    ultimately show ?thesis using Cons.IH [OF Cons.prems(1)] by blast
  next
    case False
    with Cons.prems(2) v ll
    have rec: "vector_loop vs row col m (set_cells lc m b, ch @ lc, ht + lht) = Inr (b', ch', ht')"
      by (simp_all split: if_splits)
    from vector_loop_result [OF rec wf_board_set_cells [OF Cons.prems(1)]]
    obtain ext where "ch' = (ch @ lc) @ ext" by blast
    with False show ?thesis by simp
  qed
qed

lemma compute_effect_some_yield:
  assumes "wf_board (board s)" "compute_effect row col player s = Inr (heur, changes, s1)"
    "\<exists>d \<in> set vector. line_yield (board s) (marker (players s player)) row col d \<noteq> []"
  shows "changes \<noteq> []"
proof -
  from assms(2) obtain b ht where
    "vector_loop vector row col (marker (players s player)) (board s, [], 0) = Inr (b, changes, ht)"
    by (auto simp: compute_effect_def Let_def split: sum.splits if_splits)
  from vector_loop_some_yield [OF assms(1) this assms(3)] show ?thesis by simp
qed

lemma record_move_cands:
  assumes "cands_ok lv" "effect > INIT_MAX_EFFECT"
  shows "cands_ok (record_move ply prev_move_val best_sibling i j effect (lv\<lparr>chain_ptr := chain\<rparr>))
       \<and> best_moves (record_move ply prev_move_val best_sibling i j effect (lv\<lparr>chain_ptr := chain\<rparr>)) \<noteq> []"
  using assms by (auto simp: cands_ok_def record_move_def Let_def)

lemma trial_move_effect:
  assumes "valid_state s" "on_board i j"
    and "trial_move i j player ply max_ply lv s = Inr (Some (effect, chain, changes), s2)"
  shows "effect > INIT_MAX_EFFECT"
  using assms(3)
proof (cases rule: trial_move_cases)
  case (zero heur)
  then show ?thesis by simp
next
  case (leaf heur changes')
  note r = compute_effect_result [OF leaf(1) valid_state_wf [OF assms(1)]]
  from r leaf(2) have len: "length changes' \<le> MAX_CHANGES"
    and h: "heur = word_of_int (h_func i j + weight_sum changes')" by simp_all
  from sint_heur [OF len, of i j] h have "1 \<le> sint heur" by simp
  with leaf(4) show ?thesis by (simp add: INIT_MAX_EFFECT_def)
next
  case (rec heur changes' s1 v chain')
  then show ?thesis by simp
qed

lemma trial_move_none:
  assumes "valid_state s"
    and "trial_move i j player ply max_ply lv s = Inr (None, s2)"
  shows "\<forall>d \<in> set vector. line_yield (board s) (marker (players s player)) i j d = []"
  using assms(2)
proof (cases rule: trial_move_cases)
  case (zero heur)
  with compute_effect_some_yield [OF valid_state_wf [OF assms(1)] zero(1)] show ?thesis by blast
qed simp_all

lemma cell_loop_cands:
  "valid_state s \<Longrightarrow> \<forall>p \<in> set cs. on_board (fst p) (snd p) \<Longrightarrow> cands_ok lv \<Longrightarrow>
   cell_loop cs player ply max_ply prev_move_val best_sibling lv s = Inr (lv', s') \<Longrightarrow>
   cands_ok lv'
   \<and> (best_moves lv \<noteq> []
        \<or> (\<exists>p \<in> set cs. cell (board s) (fst p) (snd p) = CHR '' ''
              \<and> (\<exists>d \<in> set vector. line_yield (board s) (marker (players s player)) (fst p) (snd p) d \<noteq> []))
       \<longrightarrow> best_moves lv' \<noteq> [])"
proof (induction cs arbitrary: lv s)
  case Nil
  then show ?case by simp
next
  case (Cons c cs)
  obtain i j where c: "c = (i, j)" by (cases c)
  from Cons.prems(2) c have on: "on_board i j" and oncs: "\<forall>p \<in> set cs. on_board (fst p) (snd p)"
    by simp_all
  note cl = Cons.prems(4) [unfolded c]
  show ?case
  proof (cases "done_flag lv")
    case True
    with cl have "lv' = lv" by simp
    with Cons.prems(3) True show ?thesis by (auto simp: cands_ok_def)
  next
    case nd: False
    show ?thesis
    proof (cases "cell (board s) i j \<noteq> CHR '' ''")
      case True
      with nd cl have "cell_loop cs player ply max_ply prev_move_val best_sibling lv s = Inr (lv', s')"
        by simp
      from Cons.IH [OF Cons.prems(1) oncs Cons.prems(3) this] True show ?thesis
        by (auto simp: c)
    next
      case emp: False
      with nd cl obtain r s2 where tm: "trial_move i j player ply max_ply lv s = Inr (r, s2)"
        by (auto split: sum.splits)
      from frame_induct(3) [of s i j player ply max_ply lv] Cons.prems(1) on emp tm
      have R: "case r of None \<Rightarrow> s2 = s
         | Some (effect, chain, changes) \<Rightarrow>
             undo_move i j player changes s2 = s\<lparr>rand_stream := rand_stream s2\<rparr>"
        by blast
      show ?thesis
      proof (cases r)
        case None
        with R have s2: "s2 = s" by simp
        from nd emp tm None cl s2
        have "cell_loop cs player ply max_ply prev_move_val best_sibling lv s = Inr (lv', s')"
          by simp
        from Cons.IH [OF Cons.prems(1) oncs Cons.prems(3) this]
          trial_move_none [OF Cons.prems(1) tm [unfolded None]]
        show ?thesis by (auto simp: c)
      next
        case (Some t)
        obtain effect chain changes where t: "t = (effect, chain, changes)" by (cases t)
        let ?s3 = "undo_move i j player changes s2"
        let ?lv = "record_move ply prev_move_val best_sibling i j effect (lv\<lparr>chain_ptr := chain\<rparr>)"
        from R Some t have s3: "?s3 = s\<lparr>rand_stream := rand_stream s2\<rparr>" by simp
        then have sg: "same_game s ?s3" by simp
        from nd emp tm Some t cl
        have cl': "cell_loop cs player ply max_ply prev_move_val best_sibling ?lv ?s3 = Inr (lv', s')"
          by simp
        from trial_move_effect [OF Cons.prems(1) on tm [unfolded Some t]]
        have "effect > INIT_MAX_EFFECT" .
        from record_move_cands [OF Cons.prems(3) this, of ply prev_move_val best_sibling i j chain]
        have ok: "cands_ok ?lv" and ne: "best_moves ?lv \<noteq> []" by simp_all
        from Cons.IH [OF valid_state_same_game [OF Cons.prems(1) sg] oncs ok cl'] ne
        show ?thesis by simp
      qed
    qed
  qed
qed

lemma best_move_some_move:
  assumes "valid_state s" "\<not> no_legal_move player s"
    and "best_move True player ply max_ply prev_move_val best_sibling s = Inr (v, c, s')"
  shows "\<exists>m ms. c = Some (m # ms)"
proof -
  from assms(3) obtain lv s1 where
    cl: "cell_loop all_cells player ply max_ply prev_move_val best_sibling init_vars s = Inr (lv, s1)"
    and res: "(v, c, s') = choose_result True lv s1"
    by (subst (asm) best_move.simps) (auto split: sum.splits)
  have "cands_ok init_vars" by (simp add: cands_ok_def init_vars_def)
  from cell_loop_cands [OF assms(1) _ this cl] all_cells_on_board assms(2)
  have ok: "cands_ok lv" and ne: "best_moves lv \<noteq> []"
    unfolding no_legal_move_def by blast+
  let ?k = "fst (rand s1) mod length (best_moves lv)"
  from ne have "?k < length (best_moves lv)" by simp
  then have "best_moves lv ! ?k \<in> set (best_moves lv)" by simp
  with ok have "best_moves lv ! ?k \<noteq> []" by (simp add: cands_ok_def list_all_iff)
  moreover from res ne have "c = Some (best_moves lv ! ?k)"
    by (simp add: choose_result_def Let_def split: prod.splits)
  ultimately show ?thesis by (cases "best_moves lv ! ?k") simp_all
qed

section \<open>Pruning against minimax\<close>

lemma compute_effect_rand:
  "compute_effect row col player (s\<lparr>rand_stream := r\<rparr>) =
     (case compute_effect row col player s of
        Inl e \<Rightarrow> Inl e
      | Inr (heur, changes, s1) \<Rightarrow> Inr (heur, changes, s1\<lparr>rand_stream := r\<rparr>))"
  by (simp add: compute_effect_def Let_def add_count_def sub_count_def split: sum.splits prod.splits)

lemma minimax_rand_induct:
  "\<forall>r. minimax player ply max_ply (s\<lparr>rand_stream := r\<rparr>) = minimax player ply max_ply s"
  "\<forall>r. move_values cs player ply max_ply (s\<lparr>rand_stream := r\<rparr>) = move_values cs player ply max_ply s"
proof (induction player ply max_ply s and cs player ply max_ply s rule: minimax_move_values.induct)
  case (1 player ply max_ply s)
  then show ?case by (simp add: minimax.simps)
next
  case (2 player ply max_ply s)
  show ?case by simp
next
  case (3 i j cs player ply max_ply s)
  show ?case
  proof
    fix r
    show "move_values ((i, j) # cs) player ply max_ply (s\<lparr>rand_stream := r\<rparr>)
          = move_values ((i, j) # cs) player ply max_ply s"
    proof (cases "cell (board s) i j \<noteq> CHR '' ''")
      case True
      with "3.IH"(1) show ?thesis by simp
    next
      case emp: False
      show ?thesis
      proof (cases "compute_effect i j player s")
        case (Inl e)
        with emp "3.IH"(2) show ?thesis by (simp add: compute_effect_rand)
      next
        case (Inr t)
        obtain heur changes s1 where t: "t = (heur, changes, s1)" by (cases t)
        note ce = Inr [unfolded t]
        show ?thesis
        proof (cases "length changes = 0")
          case True
          with emp ce "3.IH"(3) [OF emp ce refl refl] show ?thesis
            by (simp add: compute_effect_rand)
        next
          case ne: False
          note tail = "3.IH"(5) [OF emp ce refl refl ne]
          show ?thesis
          proof (cases "ply < max_ply \<and> count (players s1 player)
                       + count (players s1 (opponent (players s1 player))) < BOARD_AREA")
            case True
            from "3.IH"(4) [OF emp ce refl refl ne True] tail emp ce ne True show ?thesis
              by (simp add: compute_effect_rand)
          next
            case False
            with tail emp ce ne show ?thesis
              by (auto simp: compute_effect_rand)
          qed
        qed
      qed
    qed
  qed
qed

lemma move_values_same_game:
  assumes "same_game s s'"
  shows "move_values cs player ply max_ply s' = move_values cs player ply max_ply s"
    and "minimax player ply max_ply s' = minimax player ply max_ply s"
proof -
  from same_game_eq [OF assms] obtain r where "s' = s\<lparr>rand_stream := r\<rparr>" by blast
  with minimax_rand_induct show "move_values cs player ply max_ply s' = move_values cs player ply max_ply s"
    and "minimax player ply max_ply s' = minimax player ply max_ply s" by simp_all
qed

lemma record_move_gt:
  assumes "effect > max_effect lv"
  shows "max_effect (record_move ply prev_move_val best_sibling i j effect lv) = effect"
    and "best_moves (record_move ply prev_move_val best_sibling i j effect lv) = [(i, j) # chain_ptr lv]"
    and "done_flag (record_move ply prev_move_val best_sibling i j effect lv)
           = (done_flag lv \<or> (1 < ply \<and> prev_move_val - effect < best_sibling))"
  using assms by (auto simp: record_move_def Let_def)

lemma record_move_eq:
  assumes "effect = max_effect lv"
  shows "max_effect (record_move ply prev_move_val best_sibling i j effect lv) = max_effect lv"
    and "best_moves (record_move ply prev_move_val best_sibling i j effect lv)
           = best_moves lv @ [(i, j) # chain_ptr lv]"
    and "done_flag (record_move ply prev_move_val best_sibling i j effect lv) = done_flag lv"
  using assms by (auto simp: record_move_def Let_def)

lemma record_move_lt:
  assumes "effect < max_effect lv"
  shows "record_move ply prev_move_val best_sibling i j effect lv = lv"
  using assms by (auto simp: record_move_def Let_def)

lemma lv_ok_record_move:
  assumes "lv_ok lv" "effect > INIT_MAX_EFFECT"
  shows "lv_ok (record_move ply prev_move_val best_sibling i j effect (lv\<lparr>chain_ptr := chain\<rparr>))"
proof -
  let ?lv = "lv\<lparr>chain_ptr := chain\<rparr>"
  consider "effect > max_effect ?lv" | "effect = max_effect ?lv" | "effect < max_effect ?lv"
    by linarith
  then show ?thesis
  proof cases
    case 1
    from record_move_gt [OF 1] assms(2) show ?thesis by (simp add: lv_ok_def)
  next
    case 2
    from record_move_eq [OF 2] assms 2 show ?thesis by (simp add: lv_ok_def)
  next
    case 3
    from record_move_lt [OF 3] assms(1) show ?thesis by (simp add: lv_ok_def)
  qed
qed

lemma loop_post_step:
  assumes ok: "lv_ok lv" and nd: "\<not> done_flag lv" and e: "e > INIT_MAX_EFFECT"
    and ex: "e = x \<or> (x \<le> e \<and> e < max_effect lv)"
    and lv1: "lv1 = record_move ply prev_move_val best_sibling i j e (lv\<lparr>chain_ptr := chain\<rparr>)"
    and d: "done_flag lv1 \<longrightarrow> lv' = lv1"
    and n: "\<not> done_flag lv1 \<longrightarrow> loop_post ply prev_move_val best_sibling lv1 vals lv'"
  shows "loop_post ply prev_move_val best_sibling lv (x # vals) lv'"
proof -
  let ?lv = "lv\<lparr>chain_ptr := chain\<rparr>"
  note ok1 = lv_ok_record_move [OF ok e, of ply prev_move_val best_sibling i j chain, folded lv1]
  consider "e > max_effect ?lv" | "e = max_effect ?lv" | "e < max_effect ?lv"
    by linarith
  then show ?thesis
  proof cases
    case 1
    with ex have x: "x = e" by auto
    note f = record_move_gt [OF 1, of ply prev_move_val best_sibling i j, folded lv1]
    show ?thesis
    proof (cases "done_flag lv1")
      case True
      with d f nd ok1 x show ?thesis by (simp add: loop_post_def)
    next
      case False
      with n have "loop_post ply prev_move_val best_sibling lv1 vals lv'" by simp
      with f x 1 show ?thesis by (auto simp: loop_post_def max_def)
    qed
  next
    case 2
    note f = record_move_eq [OF 2, of ply prev_move_val best_sibling i j, folded lv1]
    from f nd n have p: "loop_post ply prev_move_val best_sibling lv1 vals lv'" by simp
    from 2 ex have "x \<le> max_effect lv" by auto
    with p f show ?thesis by (auto simp: loop_post_def max_def)
  next
    case 3
    note f = record_move_lt [OF 3, of ply prev_move_val best_sibling i j, folded lv1]
    from f nd n have p: "loop_post ply prev_move_val best_sibling lv1 vals lv'" by simp
    from 3 ex have xm: "x \<le> max_effect lv" by auto
    from 3 e ok have "best_moves lv \<noteq> []" by (auto simp: lv_ok_def)
    with p f xm show ?thesis by (auto simp: loop_post_def max_def)
  qed
qed

lemma cell_loop_done:
  "done_flag lv \<Longrightarrow> cell_loop cs player ply max_ply prev_move_val best_sibling lv s = Inr (lv, s)"
  by (cases cs) auto

lemma fold_max_Max:
  "vals \<noteq> [] \<Longrightarrow> fold max vals (a :: int) = max a (Max (set vals))"
proof (induction vals arbitrary: a)
  case Nil
  then show ?case by simp
next
  case (Cons v vals)
  show ?case
  proof (cases "vals = []")
    case True
    then show ?thesis by (simp add: max.commute)
  next
    case False
    from Cons.IH [OF False, of "max v a"] False show ?thesis
      by (simp add: max.assoc max.commute max.left_commute)
  qed
qed

lemma refine_induct:
  "rtn \<longrightarrow> valid_state s \<longrightarrow>
     (\<forall>v c s'. best_move rtn player ply max_ply prev_move_val best_sibling s = Inr (v, c, s') \<longrightarrow>
        v = minimax player ply max_ply s
        \<or> (1 < ply \<and> v \<le> minimax player ply max_ply s \<and> prev_move_val - v < best_sibling))"
  "valid_state s \<longrightarrow> (\<forall>p \<in> set cs. on_board (fst p) (snd p)) \<longrightarrow> lv_ok lv \<longrightarrow> \<not> done_flag lv \<longrightarrow>
     (\<forall>lv' s'. cell_loop cs player ply max_ply prev_move_val best_sibling lv s = Inr (lv', s') \<longrightarrow>
        loop_post ply prev_move_val best_sibling lv (move_values cs player ply max_ply s) lv')"
  "valid_state s \<longrightarrow> on_board i j \<longrightarrow> cell (board s) i j = CHR '' '' \<longrightarrow>
     (\<forall>r s2. trial_move i j player ply max_ply lv s = Inr (r, s2) \<longrightarrow>
        (case r of
           None \<Rightarrow> (\<forall>cs. move_values ((i, j) # cs) player ply max_ply s
                           = move_values cs player ply max_ply s)
         | Some (e, chain, changes) \<Rightarrow>
             e > INIT_MAX_EFFECT
             \<and> (\<exists>x. (\<forall>cs. move_values ((i, j) # cs) player ply max_ply s
                             = x # move_values cs player ply max_ply s)
                    \<and> (e = x \<or> (x \<le> e \<and> e < max_effect lv)))))"
proof (induction rtn player ply max_ply prev_move_val best_sibling s
    and cs player ply max_ply prev_move_val best_sibling lv s
    and i j player ply max_ply lv s
    rule: best_move_cell_loop_trial_move.induct)
  case (1 rtn player ply max_ply prev_move_val best_sibling s)
  show ?case
  proof (intro impI allI)
    fix v c s'
    assume rtn: rtn and vs: "valid_state s"
      and bm: "best_move rtn player ply max_ply prev_move_val best_sibling s = Inr (v, c, s')"
    let ?vals = "move_values all_cells player ply max_ply s"
    from bm obtain lv s1 where
      cl: "cell_loop all_cells player ply max_ply prev_move_val best_sibling init_vars s = Inr (lv, s1)"
      and res: "(v, c, s') = choose_result rtn lv s1"
      by (subst (asm) best_move.simps) (auto split: sum.splits)
    have ok0: "lv_ok init_vars" and nd0: "\<not> done_flag init_vars"
      and i0: "best_moves init_vars = []" "max_effect init_vars = INIT_MAX_EFFECT"
      by (simp_all add: lv_ok_def init_vars_def)
    from "1.IH" vs all_cells_on_board ok0 nd0 cl
    have post: "loop_post ply prev_move_val best_sibling init_vars ?vals lv" by blast
    from res rtn have v: "v = (if best_moves lv = [] then 0 else max_effect lv)"
      by (simp add: choose_result_def Let_def split: prod.splits if_splits)
    have mm: "minimax player ply max_ply s = (if ?vals = [] then 0 else Max (set ?vals))"
      by (subst minimax.simps) (simp split: list.splits)
    from post have ok: "lv_ok lv" by (simp add: loop_post_def)
    from post consider
      (a) "\<not> done_flag lv" "max_effect lv = fold max ?vals INIT_MAX_EFFECT"
          "best_moves lv = [] \<longleftrightarrow> ?vals = []"
      | (b) "done_flag lv" "1 < ply" "prev_move_val - max_effect lv < best_sibling"
          "max_effect lv \<in> set ?vals" "best_moves lv \<noteq> []"
      by (auto simp: loop_post_def i0)
    then show "v = minimax player ply max_ply s
        \<or> (1 < ply \<and> v \<le> minimax player ply max_ply s \<and> prev_move_val - v < best_sibling)"
    proof cases
      case a
      show ?thesis
      proof (cases "?vals = []")
        case True
        with a v mm show ?thesis by simp
      next
        case False
        with a have ne: "best_moves lv \<noteq> []" by simp
        with ok have "max_effect lv > INIT_MAX_EFFECT" by (simp add: lv_ok_def)
        with a(2) fold_max_Max [OF False, of INIT_MAX_EFFECT]
        have "max_effect lv = Max (set ?vals)" by (simp add: max_def split: if_splits)
        with ne v mm False show ?thesis by simp
      qed
    next
      case b
      from b(4) have "?vals \<noteq> []" and "max_effect lv \<le> Max (set ?vals)" by auto
      with b v mm show ?thesis by simp
    qed
  qed
next
  case (2 player ply max_ply prev_move_val best_sibling lv s)
  show ?case by (simp add: loop_post_def)
next
  case (3 i j cs player ply max_ply prev_move_val best_sibling lv s)
  show ?case
  proof (intro impI allI)
    fix lv' s'
    assume vs: "valid_state s"
      and on: "\<forall>p \<in> set ((i, j) # cs). on_board (fst p) (snd p)"
      and ok: "lv_ok lv" and nd: "\<not> done_flag lv"
      and cl: "cell_loop ((i, j) # cs) player ply max_ply prev_move_val best_sibling lv s = Inr (lv', s')"
    from on have onij: "on_board i j" and oncs: "\<forall>p \<in> set cs. on_board (fst p) (snd p)" by simp_all
    show "loop_post ply prev_move_val best_sibling lv
            (move_values ((i, j) # cs) player ply max_ply s) lv'"
    proof (cases "cell (board s) i j \<noteq> CHR '' ''")
      case True
      with nd cl have "cell_loop cs player ply max_ply prev_move_val best_sibling lv s = Inr (lv', s')"
        by simp
      with "3.IH"(1) [OF nd True] vs oncs ok nd True show ?thesis by simp
    next
      case emp: False
      with nd cl obtain r s2 where tm: "trial_move i j player ply max_ply lv s = Inr (r, s2)"
        by (auto split: sum.splits)
      from frame_induct(3) [of s i j player ply max_ply lv] vs onij emp tm
      have F: "case r of None \<Rightarrow> s2 = s
         | Some (effect, chain, changes) \<Rightarrow>
             undo_move i j player changes s2 = s\<lparr>rand_stream := rand_stream s2\<rparr>"
        by blast
      from "3.IH"(2) [OF nd emp] vs onij emp tm
      have R: "case r of
           None \<Rightarrow> (\<forall>cs. move_values ((i, j) # cs) player ply max_ply s
                           = move_values cs player ply max_ply s)
         | Some (e, chain, changes) \<Rightarrow>
             e > INIT_MAX_EFFECT
             \<and> (\<exists>x. (\<forall>cs. move_values ((i, j) # cs) player ply max_ply s
                             = x # move_values cs player ply max_ply s)
                    \<and> (e = x \<or> (x \<le> e \<and> e < max_effect lv)))"
        by blast
      show ?thesis
      proof (cases r)
        case None
        with F have s2: "s2 = s" by simp
        from R None have mv: "move_values ((i, j) # cs) player ply max_ply s
                           = move_values cs player ply max_ply s" by simp
        from nd emp tm None cl
        have "cell_loop cs player ply max_ply prev_move_val best_sibling lv s2 = Inr (lv', s')"
          by simp
        with "3.IH"(3) [OF nd emp tm refl None] vs oncs ok nd s2 mv show ?thesis by simp
      next
        case (Some t)
        obtain e chain changes where t: "t = (e, chain, changes)" by (cases t)
        let ?s3 = "undo_move i j player changes s2"
        let ?lv1 = "record_move ply prev_move_val best_sibling i j e (lv\<lparr>chain_ptr := chain\<rparr>)"
        from F Some t have s3: "?s3 = s\<lparr>rand_stream := rand_stream s2\<rparr>" by simp
        then have sg: "same_game s ?s3" by simp
        from R Some t obtain x where e: "e > INIT_MAX_EFFECT"
          and mv: "move_values ((i, j) # cs) player ply max_ply s
                     = x # move_values cs player ply max_ply s"
          and ex: "e = x \<or> (x \<le> e \<and> e < max_effect lv)"
          by auto
        from nd emp tm Some t cl
        have cl': "cell_loop cs player ply max_ply prev_move_val best_sibling ?lv1 ?s3 = Inr (lv', s')"
          by simp
        have d: "done_flag ?lv1 \<longrightarrow> lv' = ?lv1"
          using cl' by (auto simp: cell_loop_done)
        have n: "\<not> done_flag ?lv1 \<longrightarrow>
                 loop_post ply prev_move_val best_sibling ?lv1 (move_values cs player ply max_ply s) lv'"
        proof
          assume nd1: "\<not> done_flag ?lv1"
          from "3.IH"(4) [OF nd emp tm refl Some t [symmetric] refl]
            valid_state_same_game [OF vs sg] oncs lv_ok_record_move [OF ok e] nd1 cl'
          have "loop_post ply prev_move_val best_sibling ?lv1
                  (move_values cs player ply max_ply ?s3) lv'" by blast
          with move_values_same_game(1) [OF sg] show
            "loop_post ply prev_move_val best_sibling ?lv1 (move_values cs player ply max_ply s) lv'"
            by simp
        qed
        from loop_post_step [OF ok nd e ex refl d n] mv show ?thesis by simp
      qed
    qed
  qed
next
  case (4 i j player ply max_ply lv s)
  show ?case
  proof (intro impI allI)
    fix r s2
    assume vs: "valid_state s" and on: "on_board i j" and emp: "cell (board s) i j = CHR '' ''"
      and tm: "trial_move i j player ply max_ply lv s = Inr (r, s2)"
    from tm show "case r of
           None \<Rightarrow> (\<forall>cs. move_values ((i, j) # cs) player ply max_ply s
                           = move_values cs player ply max_ply s)
         | Some (e, chain, changes) \<Rightarrow>
             e > INIT_MAX_EFFECT
             \<and> (\<exists>x. (\<forall>cs. move_values ((i, j) # cs) player ply max_ply s
                             = x # move_values cs player ply max_ply s)
                    \<and> (e = x \<or> (x \<le> e \<and> e < max_effect lv)))"
    proof (cases rule: trial_move_cases)
      case (zero heur)
      with emp show ?thesis by simp
    next
      case (leaf heur changes)
      from trial_move_effect [OF vs on tm [unfolded leaf(4)]]
      have "sint heur > INIT_MAX_EFFECT" .
      moreover from leaf emp
      have "\<forall>cs. move_values ((i, j) # cs) player ply max_ply s
                  = sint heur # move_values cs player ply max_ply s"
        by auto
      ultimately show ?thesis using leaf(4) by auto
    next
      case (rec heur changes s1 v chain)
      let ?M = "minimax (opponent (players s1 player)) (ply + 1) max_ply s1"
      from rec(2,3,4) have ne: "length changes \<noteq> 0"
        and c: "ply < max_ply \<and> count (players s1 player)
            + count (players s1 (opponent (players s1 player))) < BOARD_AREA" by simp_all
      from "4.IH" [OF rec(1) refl refl ne c] rec(5) valid_state_compute_effect [OF vs rec(1)]
      have "v = ?M \<or> (1 < ply + 1 \<and> v \<le> ?M \<and> sint heur - v < max_effect lv)" by blast
      then have "sint heur - v = sint heur - ?M
          \<or> (sint heur - ?M \<le> sint heur - v \<and> sint heur - v < max_effect lv)" by auto
      moreover from rec(1) ne c emp
      have "\<forall>cs. move_values ((i, j) # cs) player ply max_ply s
                  = (sint heur - ?M) # move_values cs player ply max_ply s"
        by simp
      ultimately show ?thesis using rec(6,7) by auto
    qed
  qed
qed

section \<open>Cut-off\<close>

lemma cell_loop_append:
  "cell_loop (xs @ ys) player ply max_ply prev_move_val best_sibling lv s =
     (case cell_loop xs player ply max_ply prev_move_val best_sibling lv s of
        Inl e \<Rightarrow> Inl e
      | Inr (lv', s') \<Rightarrow> cell_loop ys player ply max_ply prev_move_val best_sibling lv' s')"
proof (induction xs arbitrary: lv s)
  case Nil
  show ?case by simp
next
  case (Cons c xs)
  obtain i j where c: "c = (i, j)" by (cases c)
  show ?case
  proof (cases "done_flag lv")
    case True
    then show ?thesis by (simp add: c cell_loop_done)
  next
    case False
    then show ?thesis
      by (simp add: c Cons.IH split: sum.splits option.splits prod.splits)
  qed
qed

lemma cut_inv_record_move:
  assumes "cut_inv prev_move_val best_sibling lv" "effect > INIT_MAX_EFFECT" "1 < ply" "\<not> done_flag lv"
  shows "cut_inv prev_move_val best_sibling
           (record_move ply prev_move_val best_sibling i j effect (lv\<lparr>chain_ptr := chain\<rparr>))"
proof -
  let ?lv = "lv\<lparr>chain_ptr := chain\<rparr>"
  from assms(1) have ok: "lv_ok lv" by (simp add: cut_inv_def)
  note ok1 = lv_ok_record_move [OF ok assms(2), of ply prev_move_val best_sibling i j chain]
  consider "effect > max_effect ?lv" | "effect = max_effect ?lv" | "effect < max_effect ?lv"
    by linarith
  then show ?thesis
  proof cases
    case 1
    from record_move_gt [OF 1, of ply prev_move_val best_sibling i j] ok1 assms(3) show ?thesis
      by (auto simp: cut_inv_def)
  next
    case 2
    with assms(2) ok have "best_moves lv \<noteq> []" by (auto simp: lv_ok_def)
    with record_move_eq [OF 2, of ply prev_move_val best_sibling i j] ok1 assms(1,4) show ?thesis
      by (auto simp: cut_inv_def)
  next
    case 3
    from record_move_lt [OF 3, of ply prev_move_val best_sibling i j] assms(1) show ?thesis
      by (simp add: cut_inv_def lv_ok_def)
  qed
qed

lemma cell_loop_cut_inv:
  assumes "1 < ply"
  shows "valid_state s \<Longrightarrow> \<forall>p \<in> set cs. on_board (fst p) (snd p) \<Longrightarrow>
         cut_inv prev_move_val best_sibling lv \<Longrightarrow>
         cell_loop cs player ply max_ply prev_move_val best_sibling lv s = Inr (lv', s') \<Longrightarrow>
         cut_inv prev_move_val best_sibling lv' \<and> same_game s s'"
proof (induction cs arbitrary: lv s)
  case Nil
  then show ?case by simp
next
  case (Cons c cs)
  obtain i j where c: "c = (i, j)" by (cases c)
  from Cons.prems(2) c have on: "on_board i j" and oncs: "\<forall>p \<in> set cs. on_board (fst p) (snd p)"
    by simp_all
  note cl = Cons.prems(4) [unfolded c]
  show ?case
  proof (cases "done_flag lv")
    case True
    with cl Cons.prems(3) show ?thesis by simp
  next
    case nd: False
    show ?thesis
    proof (cases "cell (board s) i j \<noteq> CHR '' ''")
      case True
      with nd cl have "cell_loop cs player ply max_ply prev_move_val best_sibling lv s = Inr (lv', s')"
        by simp
      from Cons.IH [OF Cons.prems(1) oncs Cons.prems(3) this] show ?thesis .
    next
      case emp: False
      with nd cl obtain r s2 where tm: "trial_move i j player ply max_ply lv s = Inr (r, s2)"
        by (auto split: sum.splits)
      from frame_induct(3) [of s i j player ply max_ply lv] Cons.prems(1) on emp tm
      have R: "case r of None \<Rightarrow> s2 = s
         | Some (effect, chain, changes) \<Rightarrow>
             undo_move i j player changes s2 = s\<lparr>rand_stream := rand_stream s2\<rparr>"
        by blast
      show ?thesis
      proof (cases r)
        case None
        with R have s2: "s2 = s" by simp
        from nd emp tm None cl s2
        have "cell_loop cs player ply max_ply prev_move_val best_sibling lv s = Inr (lv', s')"
          by simp
        from Cons.IH [OF Cons.prems(1) oncs Cons.prems(3) this] show ?thesis .
      next
        case (Some t)
        obtain effect chain changes where t: "t = (effect, chain, changes)" by (cases t)
        let ?s3 = "undo_move i j player changes s2"
        let ?lv = "record_move ply prev_move_val best_sibling i j effect (lv\<lparr>chain_ptr := chain\<rparr>)"
        from R Some t have s3: "?s3 = s\<lparr>rand_stream := rand_stream s2\<rparr>" by simp
        then have sg: "same_game s ?s3" by simp
        from nd emp tm Some t cl
        have cl': "cell_loop cs player ply max_ply prev_move_val best_sibling ?lv ?s3 = Inr (lv', s')"
          by simp
        from trial_move_effect [OF Cons.prems(1) on tm [unfolded Some t]]
        have "effect > INIT_MAX_EFFECT" .
        from cut_inv_record_move [OF Cons.prems(3) this assms nd]
        have "cut_inv prev_move_val best_sibling ?lv" .
        from Cons.IH [OF valid_state_same_game [OF Cons.prems(1) sg] oncs this cl'] sg
        show ?thesis by (blast intro: same_game_trans)
      qed
    qed
  qed
qed

section \<open>The line scan against the specification\<close>

lemma ray_Suc:
  "ray row col d (Suc n) = (row + fst d, col + snd d) # ray (row + fst d) (col + snd d) d n"
proof -
  have "[1..<Suc (Suc n)] = 1 # map Suc [1..<Suc n]"
    by (simp add: upt_conv_Cons map_Suc_upt del: upt_Suc)
  then show ?thesis
    by (simp add: ray_def comp_def algebra_simps del: upt_Suc)
qed

lemma coord_step_int:
  assumes "(x :: uint) < 8" "d = - 1 \<or> d = 0 \<or> d = 1"
  shows "(x + word_of_int d < 8) \<longleftrightarrow> (0 \<le> uint x + d \<and> uint x + d < 8)"
  using uint_less_8_cases [OF assms(1)] assms(2) by auto

lemma on_board_step:
  assumes "on_board r c" "d \<in> set vector"
  shows "on_board (r + word_of_int (fst d)) (c + word_of_int (snd d))
           \<longleftrightarrow> in_board (uint r + fst d) (uint c + snd d)"
    and "on_board (r + word_of_int (fst d)) (c + word_of_int (snd d)) \<Longrightarrow>
           uint (r + word_of_int (fst d)) = uint r + fst d
           \<and> uint (c + word_of_int (snd d)) = uint c + snd d"
proof -
  from assms(1) have r: "r < 8" and c: "c < 8" by (simp_all add: on_board_def BOARD_SIZE_def)
  from vector_cases [OF assms(2)]
  have dr: "fst d = - 1 \<or> fst d = 0 \<or> fst d = 1" and dc: "snd d = - 1 \<or> snd d = 0 \<or> snd d = 1"
    by auto
  from coord_step_int [OF r dr] coord_step_int [OF c dc]
  show "on_board (r + word_of_int (fst d)) (c + word_of_int (snd d))
           \<longleftrightarrow> in_board (uint r + fst d) (uint c + snd d)"
    by (auto simp: on_board_def BOARD_SIZE_def in_board_def)
  show "uint (r + word_of_int (fst d)) = uint r + fst d
           \<and> uint (c + word_of_int (snd d)) = uint c + snd d"
    if "on_board (r + word_of_int (fst d)) (c + word_of_int (snd d))"
    using that coord_step(3) [OF r dr] coord_step(3) [OF c dc]
    by (simp add: on_board_def BOARD_SIZE_def)
qed

lemma cell_owner: "cell b r c = owner b (uint r) (uint c)"
  by (simp add: cell_def owner_def)

lemma line_loop_refines:
  assumes vb: "valid_board b m om" and vm: "valid_markers m om" and d: "d \<in> set vector"
  shows "on_board r2 c2 \<Longrightarrow> avail d r2 c2 \<le> n \<Longrightarrow> length lc + n \<le> 7 \<Longrightarrow>
         \<exists>t. line_loop b m (word_of_int (fst d)) (word_of_int (snd d)) r2 c2 lc lht =
           Inr (if ends_on_mover b m om (ray (uint r2) (uint c2) d n)
                then lc @ map cell_ptr (opponent_run b om (ray (uint r2) (uint c2) d n))
                else [], t)"
proof (induction n arbitrary: r2 c2 lc lht)
  case 0
  with avail_step(1) [OF "0.prems"(1) d]
  have "\<not> on_board (r2 + word_of_int (fst d)) (c2 + word_of_int (snd d))" by simp
  then show ?case
    by (subst line_loop.simps)
       (auto simp: Let_def on_board_def not_less ray_def ends_on_mover_def)
next
  case (Suc n)
  let ?r = "r2 + word_of_int (fst d)" and ?c = "c2 + word_of_int (snd d)"
  let ?R = "uint r2 + fst d" and ?C = "uint c2 + snd d"
  note rs = ray_Suc [of "uint r2" "uint c2" d n]
  show ?case
  proof (cases "on_board ?r ?c")
    case False
    with on_board_step(1) [OF Suc.prems(1) d] have nin: "\<not> in_board ?R ?C" by simp
    from False have "BOARD_SIZE \<le> ?r \<or> BOARD_SIZE \<le> ?c" by (auto simp: on_board_def not_less)
    with nin show ?thesis
      by (subst line_loop.simps) (auto simp: Let_def rs ends_on_mover_def)
  next
    case on: True
    with on_board_step [OF Suc.prems(1) d] have inb: "in_board ?R ?C"
      and u: "uint ?r = ?R" "uint ?c = ?C" by simp_all
    from on have nb: "\<not> (BOARD_SIZE \<le> ?r \<or> BOARD_SIZE \<le> ?c)"
      by (simp add: on_board_def not_le)
    have co: "cell b ?r ?c = owner b ?R ?C" by (simp add: cell_owner u)
    from valid_board_cell [OF vb on] co
    consider (empty) "owner b ?R ?C = CHR '' ''" | (mover) "owner b ?R ?C = m"
      | (opp) "owner b ?R ?C = om" by auto
    then show ?thesis
    proof cases
      case empty
      with vm nb co inb show ?thesis
        by (subst line_loop.simps)
           (auto simp: Let_def rs ends_on_mover_def valid_markers_def)
    next
      case mover
      with vm nb co inb show ?thesis
        by (subst line_loop.simps)
           (auto simp: Let_def rs ends_on_mover_def opponent_run_def valid_markers_def)
    next
      case opp
      from avail_step(2) [OF Suc.prems(1) d on] Suc.prems(2)
      have av: "avail d ?r ?c \<le> n" by simp
      from Suc.prems(3) have len: "length (lc @ [(?r, ?c)]) + n \<le> 7" by simp
      from Suc.IH [OF on av len, of "lht + word_of_int (h_func ?r ?c)"] u
      obtain t where rec: "line_loop b m (word_of_int (fst d)) (word_of_int (snd d)) ?r ?c
            (lc @ [(?r, ?c)]) (lht + word_of_int (h_func ?r ?c)) =
           Inr (if ends_on_mover b m om (ray ?R ?C d n)
                then (lc @ [(?r, ?c)]) @ map cell_ptr (opponent_run b om (ray ?R ?C d n))
                else [], t)"
        by auto
      from Suc.prems(3) have l7: "length lc < unat BOARD_SIZE - 1" by (simp add: BOARD_SIZE_def)
      have cp: "cell_ptr (?R, ?C) = (?r, ?c)"
        using u [symmetric] by (simp add: cell_ptr_def)
      from opp vm nb co inb l7 rec cp show ?thesis
        by (subst line_loop.simps)
           (auto simp: Let_def rs ends_on_mover_def opponent_run_def valid_markers_def)
    qed
  qed
qed

lemma line_yield_refines:
  assumes "valid_board b m om" "valid_markers m om" "d \<in> set vector" "on_board row col"
  shows "line_yield b m row col d = map cell_ptr (line_flips b m om (uint row) (uint col) d)"
proof -
  from avail_step(3) [OF assms(4,3)] have a: "avail d row col \<le> 7" .
  from line_loop_refines [OF assms(1,2,3,4) a, of "[]" 0] show ?thesis
    by (auto simp: line_yield_def line_flips_def)
qed

lemma ray_mem:
  "p \<in> set (ray row col d n) \<longleftrightarrow>
     (\<exists>k. 1 \<le> k \<and> k \<le> n \<and> p = (row + int k * fst d, col + int k * snd d))"
  by (auto simp: ray_def)

lemma rays_disjoint:
  assumes "d \<in> set vector" "d' \<in> set vector" "d \<noteq> d'"
    and "p \<in> set (ray row col d n)" "p \<in> set (ray row col d' n)"
  shows False
proof -
  from assms(4) obtain k where k: "1 \<le> k" "p = (row + int k * fst d, col + int k * snd d)"
    by (auto simp: ray_mem)
  from assms(5) obtain k' where k': "1 \<le> k'" "p = (row + int k' * fst d', col + int k' * snd d')"
    by (auto simp: ray_mem)
  from k k' have e: "int k * fst d = int k' * fst d'" "int k * snd d = int k' * snd d'" by simp_all
  obtain dr dc where d: "d = (dr, dc)" by (cases d)
  obtain dr' dc' where d': "d' = (dr', dc')" by (cases d')
  from assms(1) d have c1: "(dr = - 1 \<or> dr = 0 \<or> dr = 1) \<and> (dc = - 1 \<or> dc = 0 \<or> dc = 1)"
    by (auto simp: vector_def)
  from assms(2) d' have c2: "(dr' = - 1 \<or> dr' = 0 \<or> dr' = 1) \<and> (dc' = - 1 \<or> dc' = 0 \<or> dc' = 1)"
    by (auto simp: vector_def)
  from assms(1) d have nz: "dr \<noteq> 0 \<or> dc \<noteq> 0" by (auto simp: vector_def)
  have "dr = dr'" using e(1) e(2) c1 c2 k(1) k'(1) nz unfolding d d' fst_conv snd_conv
    by (elim conjE disjE) simp_all
  moreover have "dc = dc'" using e(1) e(2) c1 c2 k(1) k'(1) nz unfolding d d' fst_conv snd_conv
    by (elim conjE disjE) simp_all
  ultimately show False using assms(3) d d' by simp
qed

lemma line_flips_subset:
  "p \<in> set (line_flips b m om row col d) \<Longrightarrow>
     p \<in> set (ray row col d 7) \<and> in_board (fst p) (snd p)"
  by (auto simp: line_flips_def opponent_run_def split: if_splits dest: set_takeWhileD)

lemma line_flips_cong:
  assumes "\<forall>p \<in> set (ray row col d 7). in_board (fst p) (snd p) \<longrightarrow>
             owner b' (fst p) (snd p) = owner b (fst p) (snd p)"
  shows "line_flips b' m om row col d = line_flips b m om row col d"
proof -
  let ?cells = "ray row col d 7"
  let ?P = "\<lambda>b (r, c). in_board r c \<and> owner b r c = om"
  from assms have P: "\<And>x. x \<in> set ?cells \<Longrightarrow> ?P b' x = ?P b x" by auto
  have tw: "takeWhile (?P b') ?cells = takeWhile (?P b) ?cells"
    by (rule takeWhile_cong [OF refl P])
  have dw: "dropWhile (?P b') ?cells = dropWhile (?P b) ?cells"
    by (rule dropWhile_cong [OF refl P])
  have "ends_on_mover b' m om ?cells = ends_on_mover b m om ?cells"
  proof (cases "dropWhile (?P b) ?cells")
    case Nil
    show ?thesis unfolding ends_on_mover_def dw Nil by simp
  next
    case (Cons q qs)
    then have "q \<in> set (dropWhile (?P b) ?cells)" by simp
    then have "q \<in> set ?cells" by (rule set_dropWhileD)
    with assms have "in_board (fst q) (snd q) \<longrightarrow> owner b' (fst q) (snd q) = owner b (fst q) (snd q)"
      by blast
    then show ?thesis unfolding ends_on_mover_def dw Cons by (cases q) auto
  qed
  with tw show ?thesis by (simp add: line_flips_def opponent_run_def)
qed

lemma in_board_cell_ptr:
  assumes "in_board r c"
  shows "on_board (fst (cell_ptr (r, c))) (snd (cell_ptr (r, c)))"
    and "owner b r c = cell b (fst (cell_ptr (r, c))) (snd (cell_ptr (r, c)))"
    and "uint (fst (cell_ptr (r, c))) = r" and "uint (snd (cell_ptr (r, c))) = c"
proof -
  from assms have r: "0 \<le> r" "r < 8" and c: "0 \<le> c" "c < 8" by (simp_all add: in_board_def)
  have ur: "uint (word_of_int r :: uint) = r" and uc: "uint (word_of_int c :: uint) = c"
    using r c by (simp_all add: uint_word_of_int take_bit_eq_mod [symmetric] take_bit_int_eq_self)
  then show "uint (fst (cell_ptr (r, c))) = r" and "uint (snd (cell_ptr (r, c))) = c"
    by (simp_all add: cell_ptr_def)
  from ur uc r c show "on_board (fst (cell_ptr (r, c))) (snd (cell_ptr (r, c)))"
    by (simp add: cell_ptr_def on_board_def BOARD_SIZE_def word_less_def)
  from ur uc show "owner b r c = cell b (fst (cell_ptr (r, c))) (snd (cell_ptr (r, c)))"
    by (simp add: cell_owner cell_ptr_def)
qed

lemma cell_ptr_inj:
  assumes "in_board (fst p) (snd p)" "in_board (fst q) (snd q)" "cell_ptr p = cell_ptr q"
  shows "p = q"
proof -
  from in_board_cell_ptr(3,4) [of "fst p" "snd p"] assms(1)
  have "uint (fst (cell_ptr p)) = fst p" "uint (snd (cell_ptr p)) = snd p" by simp_all
  moreover from in_board_cell_ptr(3,4) [of "fst q" "snd q"] assms(2)
  have "uint (fst (cell_ptr q)) = fst q" "uint (snd (cell_ptr q)) = snd q" by simp_all
  ultimately show ?thesis using assms(3) by (simp add: prod_eq_iff)
qed

lemma owner_set_cells:
  assumes "wf_board b" "\<forall>q \<in> set ps. on_board (fst q) (snd q)" "in_board r c"
    "cell_ptr (r, c) \<notin> set ps"
  shows "owner (set_cells ps m b) r c = owner b r c"
proof -
  note i = in_board_cell_ptr [OF assms(3)]
  from cell_set_cells [OF assms(1,2) i(1), of m] assms(4)
  have "cell (set_cells ps m b) (fst (cell_ptr (r, c))) (snd (cell_ptr (r, c)))
          = cell b (fst (cell_ptr (r, c))) (snd (cell_ptr (r, c)))" by simp
  with i(2) [of "set_cells ps m b"] i(2) [of b] show ?thesis by simp
qed

lemma vector_loop_refines:
  assumes vm: "valid_markers m om" and on: "on_board row col"
  shows "set vs \<subseteq> set vector \<Longrightarrow> distinct vs \<Longrightarrow> valid_board b m om \<Longrightarrow>
         (\<forall>d \<in> set vs. \<forall>p \<in> set (ray (uint row) (uint col) d 7). in_board (fst p) (snd p) \<longrightarrow>
            owner b (fst p) (snd p) = owner b0 (fst p) (snd p)) \<Longrightarrow>
         vector_loop vs row col m (b, ch, ht) = Inr (b', ch', ht') \<Longrightarrow>
         ch' = ch @ map cell_ptr (concat (map (line_flips b0 m om (uint row) (uint col)) vs))"
proof (induction vs arbitrary: b ch ht)
  case Nil
  then show ?case by simp
next
  case (Cons d vs)
  let ?R = "uint row" and ?C = "uint col"
  let ?fl = "line_flips b0 m om ?R ?C d"
  obtain drow dcol where d: "d = (drow, dcol)" by (cases d)
  from Cons.prems(1) have din: "d \<in> set vector" and sub: "set vs \<subseteq> set vector" by auto
  from Cons.prems(2) have dnot: "d \<notin> set vs" and dis: "distinct vs" by auto
  from Cons.prems(4) have agree_d: "\<forall>p \<in> set (ray ?R ?C d 7). in_board (fst p) (snd p) \<longrightarrow>
            owner b (fst p) (snd p) = owner b0 (fst p) (snd p)"
    and agree_vs: "\<forall>d' \<in> set vs. \<forall>p \<in> set (ray ?R ?C d' 7). in_board (fst p) (snd p) \<longrightarrow>
            owner b (fst p) (snd p) = owner b0 (fst p) (snd p)"
    by auto
  from Cons.prems(5) d obtain lc lht where
    ll: "line_loop b m (word_of_int drow) (word_of_int dcol) row col [] 0 = Inr (lc, lht)"
    by (auto split: sum.splits)
  then have "line_yield b m row col d = lc" by (simp add: line_yield_def d)
  with line_yield_refines [OF Cons.prems(3) vm din on] line_flips_cong [OF agree_d, of m om]
  have lc: "lc = map cell_ptr ?fl" by simp
  show ?case
  proof (cases "lc = []")
    case True
    with Cons.prems(5) d ll have "vector_loop vs row col m (b, ch, ht) = Inr (b', ch', ht')"
      by simp
    from Cons.IH [OF sub dis Cons.prems(3) agree_vs this] True lc show ?thesis by simp
  next
    case False
    with Cons.prems(5) d ll
    have rec: "vector_loop vs row col m (set_cells lc m b, ch @ lc, ht + lht) = Inr (b', ch', ht')"
      by (simp_all split: if_splits)
    note wf = valid_board_wf [OF Cons.prems(3)]
    from line_loop_result [OF ll] False have "\<forall>q \<in> set lc. flippable b m q" by auto
    then have onlc: "\<forall>q \<in> set lc. on_board (fst q) (snd q)" by (simp add: flippable_def)
    have vb1: "valid_board (set_cells lc m b) m om"
      by (rule valid_board_set_cells [OF Cons.prems(3)]) simp
    have agree1: "\<forall>d' \<in> set vs. \<forall>p \<in> set (ray ?R ?C d' 7). in_board (fst p) (snd p) \<longrightarrow>
            owner (set_cells lc m b) (fst p) (snd p) = owner b0 (fst p) (snd p)"
    proof (intro ballI impI)
      fix d' p assume d': "d' \<in> set vs" and p: "p \<in> set (ray ?R ?C d' 7)"
        and inb: "in_board (fst p) (snd p)"
      from d' dnot have ne: "d \<noteq> d'" by auto
      have "cell_ptr p \<notin> set lc"
      proof
        assume "cell_ptr p \<in> set lc"
        with lc obtain q where q: "q \<in> set ?fl" "cell_ptr p = cell_ptr q" by auto
        from line_flips_subset [OF q(1)] have qr: "q \<in> set (ray ?R ?C d 7)"
          and qin: "in_board (fst q) (snd q)" by simp_all
        from cell_ptr_inj [OF inb qin q(2)] have "p = q" .
        with rays_disjoint [OF din _ ne qr] d' sub p show False by auto
      qed
      with owner_set_cells [OF wf onlc, of "fst p" "snd p" m] inb
      have "owner (set_cells lc m b) (fst p) (snd p) = owner b (fst p) (snd p)" by simp
      with agree_vs d' p inb show "owner (set_cells lc m b) (fst p) (snd p) = owner b0 (fst p) (snd p)"
        by simp
    qed
    from Cons.IH [OF sub dis vb1 agree1 rec] lc show ?thesis by simp
  qed
qed

lemma compute_effect_refines:
  assumes "valid_board (board s) (marker (players s player)) om"
    and "valid_markers (marker (players s player)) om" and "on_board row col"
  shows "\<exists>heur s'. compute_effect row col player s =
           Inr (heur, map cell_ptr (concat (map (line_flips (board s) (marker (players s player)) om
                                                   (uint row) (uint col)) vector)), s')"
proof -
  from compute_effect_total [OF assms(3), of player s] obtain heur changes s' where
    ce: "compute_effect row col player s = Inr (heur, changes, s')" by blast
  then obtain b ht where
    vl: "vector_loop vector row col (marker (players s player)) (board s, [], 0) = Inr (b, changes, ht)"
    by (auto simp: compute_effect_def Let_def split: sum.splits if_splits)
  have "distinct vector" by (simp add: vector_def)
  from vector_loop_refines [OF assms(2,3) subset_refl this assms(1) _ vl, of "board s"] ce
  show ?thesis by simp
qed

lemma compute_effect_board:
  assumes ce: "compute_effect row col player s = Inr (heur, changes, s')"
    and wf: "wf_board (board s)" and on: "on_board row col" and on': "on_board r c"
  shows "cell (board s') r c
           = (if (r, c) \<in> set changes \<or> (changes \<noteq> [] \<and> (r, c) = (row, col))
              then marker (players s player) else cell (board s) r c)"
proof (cases "changes = []")
  case True
  with compute_effect_result [OF ce wf] show ?thesis by simp
next
  case False
  let ?m = "marker (players s player)"
  note r = compute_effect_result [OF ce wf]
  from r False have "s' = placed row col player changes s" by simp
  then have b: "board s' = set_cell (set_cells changes ?m (board s)) row col ?m"
    by (simp add: placed_def add_count_def sub_count_def)
  from r have onc: "\<forall>p \<in> set changes. on_board (fst p) (snd p)" by (simp add: flippable_def)
  from cell_set_cell [OF wf_board_set_cells [OF wf] on on', of changes ?m ?m]
    cell_set_cells [OF wf onc on', of ?m] False
  show ?thesis unfolding b by auto
qed

lemma cell_loop_occupied:
  assumes "\<forall>p \<in> set cs. cell (board s) (fst p) (snd p) \<noteq> CHR '' ''"
  shows "cell_loop (cs @ cs') player ply max_ply prev_move_val best_sibling lv s
           = cell_loop cs' player ply max_ply prev_move_val best_sibling lv s"
  using assms
proof (induction cs)
  case Nil
  show ?case by simp
next
  case (Cons c cs)
  obtain i j where c: "c = (i, j)" by (cases c)
  show ?case
  proof (cases "done_flag lv")
    case True
    then show ?thesis by (simp add: cell_loop_done)
  next
    case False
    with Cons c show ?thesis by simp
  qed
qed

section \<open>A search that prunes\<close>

text \<open>
  The search of depth 2 from \<^verbatim>\<open>pruning_state\<close>, X to move.  The trial of (0, 0)
  scores 72, and O has no reply: the move is worth 72.  (0, 7) flips nothing.  The trial
  of (7, 7) scores 72 and calls \<^verbatim>\<open>best_move\<close> for O at ply 2 with
  \<^verbatim>\<open>prev_move_val\<close> 72 and \<^verbatim>\<open>best_sibling\<close> 72; there the first reply,
  (0, 0), scores 72, and 72 - 72 < 72 sets \<^verbatim>\<open>done\<close> (line 269), so the reply
  (0, 7), which scores 104, is never tried.  The node returns 72 where minimax gives 104,
  the move (7, 7) is valued 0 rather than - 32, and the root returns 72 either way.
\<close>

lemma pruning_state_valid: "valid_state pruning_state"
  by (simp add: valid_state_def valid_board_def wf_board_def pruning_state_def)

lemma pruning_state_cells:
  "all_cells = (0, 0) # take 6 (drop 1 all_cells) @ (0, 7) # take 55 (drop 8 all_cells) @ [(7, 7)]"
  by (simp add: all_cells_def)

lemma pruning_state_occupied:
  "\<forall>p \<in> set (take 6 (drop 1 all_cells)). cell (board pruning_state) (fst p) (snd p) \<noteq> CHR '' ''"
  "\<forall>p \<in> set (take 55 (drop 8 all_cells)). cell (board pruning_state) (fst p) (snd p) \<noteq> CHR '' ''"
proof -
  have "list_all (\<lambda>p. cell (board pruning_state) (fst p) (snd p) \<noteq> CHR '' '')
          (take 6 (drop 1 all_cells))" by code_simp
  then show "\<forall>p \<in> set (take 6 (drop 1 all_cells)).
      cell (board pruning_state) (fst p) (snd p) \<noteq> CHR '' ''" by (simp only: list_all_iff)
  have "list_all (\<lambda>p. cell (board pruning_state) (fst p) (snd p) \<noteq> CHR '' '')
          (take 55 (drop 8 all_cells))" by code_simp
  then show "\<forall>p \<in> set (take 55 (drop 8 all_cells)).
      cell (board pruning_state) (fst p) (snd p) \<noteq> CHR '' ''" by (simp only: list_all_iff)
qed

lemma pruning_state_empty:
  "cell (board pruning_state) 0 0 = CHR '' ''" "cell (board pruning_state) 0 7 = CHR '' ''"
  "cell (board pruning_state) 7 7 = CHR '' ''"
  by (simp_all add: pruning_state_def cell_def)

lemma pruning_state_on_board: "on_board 0 0" "on_board 0 7" "on_board 7 7"
  by (simp_all add: on_board_def BOARD_SIZE_def)

lemma pruning_state_effects:
  "compute_effect 0 0 X_DATA pruning_state = Inr (72, [(0, 1)], placed 0 0 X_DATA [(0, 1)] pruning_state)"
  "compute_effect 0 7 X_DATA pruning_state = Inr (0, [], pruning_state)"
  "compute_effect 7 7 X_DATA pruning_state = Inr (72, [(7, 6)], placed 7 7 X_DATA [(7, 6)] pruning_state)"
proof -
  note wf = valid_state_wf [OF pruning_state_valid]
  have h: "(word_of_int (h_func 0 0 + weight_sum [(0, 1)]) :: uint) = 72"
    "(word_of_int (h_func 7 7 + weight_sum [(7, 6)]) :: uint) = 72"
    by (simp_all add: h_func_def idx_weight_def weight_sum_def BOARD_SIZE_def)
  from compute_effect_total [OF pruning_state_on_board(1), of X_DATA pruning_state]
  obtain heur changes s' where
    ce: "compute_effect 0 0 X_DATA pruning_state = Inr (heur, changes, s')" by blast
  have "fst (snd (projr (compute_effect 0 0 X_DATA pruning_state))) = [(0, 1)]" by code_simp
  with ce have c: "changes = [(0, 1)]" by simp
  from compute_effect_result [OF ce wf] c
  have "heur = word_of_int (h_func 0 0 + weight_sum [(0, 1)])"
    "s' = placed 0 0 X_DATA [(0, 1)] pruning_state" by simp_all
  with ce c show "compute_effect 0 0 X_DATA pruning_state
          = Inr (72, [(0, 1)], placed 0 0 X_DATA [(0, 1)] pruning_state)"
    by (simp only: h)
  from compute_effect_total [OF pruning_state_on_board(2), of X_DATA pruning_state]
  obtain heur changes s' where
    ce: "compute_effect 0 7 X_DATA pruning_state = Inr (heur, changes, s')" by blast
  have "fst (snd (projr (compute_effect 0 7 X_DATA pruning_state))) = []" by code_simp
  with ce have "changes = []" by simp
  with compute_effect_result [OF ce wf] ce
  show "compute_effect 0 7 X_DATA pruning_state = Inr (0, [], pruning_state)" by simp
  from compute_effect_total [OF pruning_state_on_board(3), of X_DATA pruning_state]
  obtain heur changes s' where
    ce: "compute_effect 7 7 X_DATA pruning_state = Inr (heur, changes, s')" by blast
  have "fst (snd (projr (compute_effect 7 7 X_DATA pruning_state))) = [(7, 6)]" by code_simp
  with ce have c: "changes = [(7, 6)]" by simp
  from compute_effect_result [OF ce wf] c
  have "heur = word_of_int (h_func 7 7 + weight_sum [(7, 6)])"
    "s' = placed 7 7 X_DATA [(7, 6)] pruning_state" by simp_all
  with ce c show "compute_effect 7 7 X_DATA pruning_state
          = Inr (72, [(7, 6)], placed 7 7 X_DATA [(7, 6)] pruning_state)"
    by (simp only: h)
qed

lemma pruning_state_placed:
  "opponent (players (placed i j X_DATA [p] pruning_state) X_DATA) = O_DATA"
  "count (players (placed i j X_DATA [p] pruning_state) X_DATA)
     + count (players (placed i j X_DATA [p] pruning_state) O_DATA) < BOARD_AREA"
  "rand_stream (placed i j X_DATA [p] pruning_state) = rand_stream pruning_state"
  by (simp_all add: placed_def add_count_def sub_count_def pruning_state_def
        BOARD_AREA_def BOARD_SIZE_def)

lemma pruning_state_undo:
  "undo_move 0 0 X_DATA [(0, 1)] (placed 0 0 X_DATA [(0, 1)] pruning_state) = pruning_state"
proof -
  from undo_same_game [OF pruning_state_valid pruning_state_on_board(1) pruning_state_empty(1)
      pruning_state_effects(1) _ same_game_refl]
  show ?thesis by (simp add: pruning_state_placed(3))
qed

lemma pruning_state_first:
  "trial_move 0 0 X_DATA 1 2 init_vars pruning_state
     = Inr (Some (72, [], [(0, 1)]), placed 0 0 X_DATA [(0, 1)] pruning_state)"
proof -
  have nl: "no_legal_move O_DATA (placed 0 0 X_DATA [(0, 1)] pruning_state)" by code_simp
  show ?thesis
    by (subst trial_move.simps)
       (simp add: pruning_state_effects(1) pruning_state_placed best_move_no_legal_move [OF nl]
          INIT_MAX_EFFECT_def init_vars_def)
qed

lemma pruning_state_second:
  "trial_move 0 7 X_DATA 1 2 lv pruning_state = Inr (None, pruning_state)"
  by (subst trial_move.simps) (simp add: pruning_state_effects(2))

lemma pruning_state_third:
  "\<exists>s'. trial_move 7 7 X_DATA 1 2
          \<lparr>done_flag = False, max_effect = 72, best_moves = [[(0, 0)]], chain_ptr = []\<rparr>
          pruning_state
     = Inr (Some (0, [(0, 0)], [(7, 6)]), s')"
proof -
  let ?s = "placed 7 7 X_DATA [(7, 6)] pruning_state"
  let ?b = "best_move True O_DATA 2 2 72 72 ?s"
  have vs: "valid_state ?s"
    by (rule valid_state_compute_effect [OF pruning_state_valid pruning_state_effects(3)])
  have "\<not> (2 :: uint) < 2" by simp
  from best_move_leaf_total [OF this vs, of True O_DATA 72 72] obtain v c s' where
    bm: "?b = Inr (v, c, s')" by blast
  have "map_sum id (\<lambda>(v, c, s'). (v, c)) ?b = Inr (72, Some [(0, 0)])" by code_simp
  with bm have "v = 72" "c = Some [(0, 0)]" by simp_all
  with bm have bm': "?b = Inr (72, Some [(0, 0)], s')" by simp
  have "trial_move 7 7 X_DATA 1 2
          \<lparr>done_flag = False, max_effect = 72, best_moves = [[(0, 0)]], chain_ptr = []\<rparr>
          pruning_state
     = Inr (Some (0, [(0, 0)], [(7, 6)]), s')"
    by (subst trial_move.simps)
       (simp add: pruning_state_effects(3) pruning_state_placed bm' INIT_MAX_EFFECT_def)
  then show ?thesis by blast
qed

lemma pruning_state_search:
  "\<exists>s'. best_move True X_DATA 1 2 0 0 pruning_state = Inr (72, Some [(0, 0)], s')"
proof -
  let ?lv = "\<lparr>done_flag = False, max_effect = 72, best_moves = [[(0, 0)]], chain_ptr = []\<rparr>"
  let ?r1 = "take 6 (drop 1 all_cells) @ (0, 7) # take 55 (drop 8 all_cells) @ [(7, 7)]"
  let ?r2 = "take 55 (drop 8 all_cells) @ [(7, 7)]"
  have rm: "record_move 1 0 0 0 0 72 (init_vars\<lparr>chain_ptr := []\<rparr>) = ?lv"
    by (simp add: record_move_def init_vars_def INIT_MAX_EFFECT_def)
  have nd: "done_flag init_vars = False" by (simp add: init_vars_def)
  have "cell_loop all_cells X_DATA 1 2 0 0 init_vars pruning_state
          = cell_loop ((0, 0) # ?r1) X_DATA 1 2 0 0 init_vars pruning_state"
    using pruning_state_cells by simp
  also have "\<dots> = cell_loop ?r1 X_DATA 1 2 0 0 ?lv pruning_state"
    by (simp add: pruning_state_empty pruning_state_first pruning_state_undo rm nd)
  also have "\<dots> = cell_loop ((0, 7) # ?r2) X_DATA 1 2 0 0 ?lv pruning_state"
    by (rule cell_loop_occupied [OF pruning_state_occupied(1)])
  also have "\<dots> = cell_loop ?r2 X_DATA 1 2 0 0 ?lv pruning_state"
    by (simp add: pruning_state_empty pruning_state_second)
  also have "\<dots> = cell_loop [(7, 7)] X_DATA 1 2 0 0 ?lv pruning_state"
    by (rule cell_loop_occupied [OF pruning_state_occupied(2)])
  finally have loop: "cell_loop all_cells X_DATA 1 2 0 0 init_vars pruning_state
          = cell_loop [(7, 7)] X_DATA 1 2 0 0 ?lv pruning_state" .
  from pruning_state_third obtain s' where
    tm: "trial_move 7 7 X_DATA 1 2 ?lv pruning_state = Inr (Some (0, [(0, 0)], [(7, 6)]), s')"
    by blast
  have "record_move 1 0 0 7 7 0 (?lv\<lparr>chain_ptr := [(0, 0)]\<rparr>) = ?lv\<lparr>chain_ptr := [(0, 0)]\<rparr>"
    by (rule record_move_lt) simp
  with tm have "cell_loop [(7, 7)] X_DATA 1 2 0 0 ?lv pruning_state
          = Inr (?lv\<lparr>chain_ptr := [(0, 0)]\<rparr>, undo_move 7 7 X_DATA [(7, 6)] s')"
    by (simp add: pruning_state_empty)
  with loop show ?thesis
    by (subst best_move.simps) (simp add: choose_result_def rand_def)
qed

lemma pruning_state_child:
  "fst (projr (cell_loop all_cells O_DATA 2 2 72 72 init_vars
                 (placed 7 7 X_DATA [(7, 6)] pruning_state)))
     = \<lparr>done_flag = True, max_effect = 72, best_moves = [[(0, 0)]], chain_ptr = []\<rparr>"
  by code_simp

lemma pruning_state_child_minimax:
  "minimax O_DATA 2 2 (placed 7 7 X_DATA [(7, 6)] pruning_state) = 104"
  by code_simp

section \<open>The heuristic weights\<close>

text \<open>
  C8.  The weight of a cell is the product of its row weight and its column weight, an
  index weighing 8 when it is 0 or 7 and 1 otherwise: 64 on the four corners, 8 on the
  other edge cells, 1 elsewhere.
\<close>

theorem h_func_weights:
  "h_func r c = (if r = 0 \<or> r = 7 then 8 else 1) * (if c = 0 \<or> c = 7 then 8 else 1)
   \<and> h_func 0 0 = 64 \<and> h_func 0 7 = 64 \<and> h_func 7 0 = 64 \<and> h_func 7 7 = 64
   \<and> h_func r c = (if (r = 0 \<or> r = 7) \<and> (c = 0 \<or> c = 7) then 64
                   else if (r = 0 \<or> r = 7) \<or> (c = 0 \<or> c = 7) then 8 else 1)"
  by (simp add: h_func_def idx_weight_def BOARD_SIZE_def)

section \<open>Apply and undo\<close>

text \<open>
  C1.  On a board whose cells are empty or hold one of the two players' markers, for
  any counts and any empty cell (row, col) of the board, \<^verbatim>\<open>compute_effect\<close> returns,
  and when it has flipped at least one cell, the undo of \<^verbatim>\<open>best_move\<close> (lines 296
  to 304) with the returned list of flips gives back the state before the move: the same
  board and the same two counts.
\<close>

theorem apply_undo_inverse:
  assumes "valid_board (board s) (marker (players s player))
             (marker (players s (opponent (players s player))))"
    and "on_board row col" and "cell (board s) row col = CHR '' ''"
  shows "\<exists>heur changes s'. compute_effect row col player s = Inr (heur, changes, s')
           \<and> (changes \<noteq> [] \<longrightarrow> undo_move row col player changes s' = s)"
proof -
  let ?m = "marker (players s player)"
  let ?om = "marker (players s (opponent (players s player)))"
  from assms(1) have wf: "wf_board (board s)" by (simp add: valid_board_def)
  from compute_effect_total [OF assms(2)] obtain heur changes s' where
    ce: "compute_effect row col player s = Inr (heur, changes, s')" by blast
  note r = compute_effect_result [OF ce wf]
  have "undo_move row col player changes s' = s" if ne: "changes \<noteq> []"
  proof -
    from r ne have s': "s' = placed row col player changes s" by simp
    have "\<forall>p \<in> set changes. flippable (board s) ?m p \<and> cell (board s) (fst p) (snd p) = ?om"
    proof
      fix p assume "p \<in> set changes"
      with r have fl: "flippable (board s) ?m p" by simp
      then have "on_board (fst p) (snd p)" by (simp add: flippable_def)
      from valid_board_cell [OF assms(1) this] fl
      show "flippable (board s) ?m p \<and> cell (board s) (fst p) (snd p) = ?om"
        by (auto simp: flippable_def)
    qed
    from undo_placed [OF wf assms(2,3) this] s' show ?thesis by simp
  qed
  with ce show ?thesis by blast
qed

theorem apply_undo_inverse_witness:
  "valid_board (board (initial_state PT_HUMAN PT_COMP (\<lambda>n. 0))) (CHR ''X'') (CHR ''O'')
   \<and> on_board 2 4 \<and> cell (board (initial_state PT_HUMAN PT_COMP (\<lambda>n. 0))) 2 4 = CHR '' ''
   \<and> fst (snd (projr (compute_effect 2 4 X_DATA (initial_state PT_HUMAN PT_COMP (\<lambda>n. 0))))) = [(3, 4)]
   \<and> undo_move 2 4 X_DATA [(3, 4)]
        (snd (snd (projr (compute_effect 2 4 X_DATA (initial_state PT_HUMAN PT_COMP (\<lambda>n. 0))))))
       = initial_state PT_HUMAN PT_COMP (\<lambda>n. 0)"
proof -
  let ?s = "initial_state PT_HUMAN PT_COMP (\<lambda>n. 0)"
  have m: "marker (players ?s X_DATA) = CHR ''X''"
    "marker (players ?s (opponent (players ?s X_DATA))) = CHR ''O''"
    by (simp_all add: initial_state_def)
  have v: "valid_board (board ?s) (CHR ''X'') (CHR ''O'')"
    by (simp add: initial_state_def valid_board_def wf_board_def)
  have on: "on_board 2 4" by (simp add: on_board_def BOARD_SIZE_def)
  have e: "cell (board ?s) 2 4 = CHR '' ''" by (simp add: initial_state_def cell_def)
  have ch: "fst (snd (projr (compute_effect 2 4 X_DATA ?s))) = [(3, 4)]" by code_simp
  from apply_undo_inverse [of ?s X_DATA 2 4] v on e m ch
  have "undo_move 2 4 X_DATA [(3, 4)] (snd (snd (projr (compute_effect 2 4 X_DATA ?s)))) = ?s"
    by auto
  with v on e ch show ?thesis by simp
qed


section \<open>The eight directions\<close>

text \<open>
  C4.  The vectors are the eight unit vectors.  For a mover and an opponent with distinct
  markers, on a board of empty cells and cells of the two, from any cell (row, col) of the
  board: what the line scan of \<^verbatim>\<open>compute_effect\<close> yields in a direction is the
  contiguous run of opponent cells outward from (row, col) when a cell of the mover ends
  the run, and nothing when the edge of the board or an empty cell ends it; a direction
  yields at most 6 flips; the flips that \<^verbatim>\<open>compute_effect\<close> returns are the
  yields of the eight directions on the board before the move, in the order of the
  vectors; and on the board that \<^verbatim>\<open>compute_effect\<close> leaves, every cell that a
  direction yields holds the mover's marker, the cell (row, col) holds it when some
  direction yields a flip, and every other cell of the board holds what it held before
  the move.
\<close>

theorem flips_per_direction:
  assumes "valid_board (board s) (marker (players s player))
             (marker (players s (opponent (players s player))))"
    and "valid_markers (marker (players s player)) (marker (players s (opponent (players s player))))"
    and "on_board row col"
  shows "set vector = ({- 1, 0, 1} \<times> {- 1, 0, 1}) - {(0, 0)} \<and> length vector = NUM_VECTORS
       \<and> (\<forall>d \<in> set vector.
            line_yield (board s) (marker (players s player)) row col d
              = map cell_ptr (line_flips (board s) (marker (players s player))
                   (marker (players s (opponent (players s player)))) (uint row) (uint col) d)
            \<and> length (line_yield (board s) (marker (players s player)) row col d) \<le> 6)
       \<and> (\<exists>heur s'. compute_effect row col player s =
            Inr (heur,
                 concat (map (line_yield (board s) (marker (players s player)) row col) vector), s')
            \<and> (\<forall>r c. on_board r c \<longrightarrow>
                 cell (board s') r c
                   = (if (\<exists>d \<in> set vector.
                            (r, c) \<in> set (line_yield (board s) (marker (players s player)) row col d))
                      then marker (players s player)
                      else if (r, c) = (row, col)
                              \<and> (\<exists>d \<in> set vector.
                                    line_yield (board s) (marker (players s player)) row col d \<noteq> [])
                      then marker (players s player)
                      else cell (board s) r c)))"
proof -
  let ?m = "marker (players s player)"
  let ?om = "marker (players s (opponent (players s player)))"
  let ?ch = "concat (map (line_yield (board s) ?m row col) vector)"
  have v: "set vector = ({- 1, 0, 1} \<times> {- 1, 0, 1}) - {(0, 0)}" "length vector = NUM_VECTORS"
    by (auto simp: vector_def NUM_VECTORS_def)
  have per: "\<forall>d \<in> set vector.
            line_yield (board s) ?m row col d
              = map cell_ptr (line_flips (board s) ?m ?om (uint row) (uint col) d)
            \<and> length (line_yield (board s) ?m row col d) \<le> 6"
  proof
    fix d assume d: "d \<in> set vector"
    from line_loop_start [OF d assms(3), of "board s" ?m]
    have "length (line_yield (board s) ?m row col d) \<le> 6" by (auto simp: line_yield_def)
    with line_yield_refines [OF assms(1,2) d assms(3)]
    show "line_yield (board s) ?m row col d
              = map cell_ptr (line_flips (board s) ?m ?om (uint row) (uint col) d)
            \<and> length (line_yield (board s) ?m row col d) \<le> 6" by simp
  qed
  then have e: "map (line_yield (board s) ?m row col) vector
           = map (\<lambda>d. map cell_ptr (line_flips (board s) ?m ?om (uint row) (uint col) d)) vector"
    by (intro map_cong refl) simp
  have "?ch = map cell_ptr (concat (map (line_flips (board s) ?m ?om (uint row) (uint col)) vector))"
    unfolding e by (simp add: map_concat comp_def)
  with compute_effect_refines [OF assms] obtain heur s' where
    ce: "compute_effect row col player s = Inr (heur, ?ch, s')" by auto
  have mem: "\<And>p. p \<in> set ?ch \<longleftrightarrow> (\<exists>d \<in> set vector. p \<in> set (line_yield (board s) ?m row col d))"
    by auto
  have ne: "?ch \<noteq> [] \<longleftrightarrow> (\<exists>d \<in> set vector. line_yield (board s) ?m row col d \<noteq> [])"
    by auto
  have post: "\<forall>r c. on_board r c \<longrightarrow>
                 cell (board s') r c
                   = (if (\<exists>d \<in> set vector. (r, c) \<in> set (line_yield (board s) ?m row col d))
                      then ?m
                      else if (r, c) = (row, col)
                              \<and> (\<exists>d \<in> set vector. line_yield (board s) ?m row col d \<noteq> [])
                      then ?m
                      else cell (board s) r c)"
  proof (intro allI impI)
    fix r c assume on: "on_board r c"
    from compute_effect_board [OF ce valid_board_wf [OF assms(1)] assms(3) on]
    show "cell (board s') r c
                   = (if (\<exists>d \<in> set vector. (r, c) \<in> set (line_yield (board s) ?m row col d))
                      then ?m
                      else if (r, c) = (row, col)
                              \<and> (\<exists>d \<in> set vector. line_yield (board s) ?m row col d \<noteq> [])
                      then ?m
                      else cell (board s) r c)"
      unfolding mem ne by auto
  qed
  from ce post have "\<exists>heur s'. compute_effect row col player s = Inr (heur, ?ch, s')
            \<and> (\<forall>r c. on_board r c \<longrightarrow>
                 cell (board s') r c
                   = (if (\<exists>d \<in> set vector. (r, c) \<in> set (line_yield (board s) ?m row col d))
                      then ?m
                      else if (r, c) = (row, col)
                              \<and> (\<exists>d \<in> set vector. line_yield (board s) ?m row col d \<noteq> [])
                      then ?m
                      else cell (board s) r c))" by blast
  with v per show ?thesis by simp
qed

theorem flips_per_direction_witness:
  "valid_board (board (initial_state PT_HUMAN PT_COMP (\<lambda>n. 0))) (CHR ''X'') (CHR ''O'')
   \<and> valid_markers (CHR ''X'') (CHR ''O'') \<and> on_board 2 4 \<and> (1, 0) \<in> set vector
   \<and> line_flips (board (initial_state PT_HUMAN PT_COMP (\<lambda>n. 0))) (CHR ''X'') (CHR ''O'') 2 4 (1, 0)
       = [(3, 4)]
   \<and> line_yield (board (initial_state PT_HUMAN PT_COMP (\<lambda>n. 0))) (CHR ''X'') 2 4 (1, 0) = [(3, 4)]
   \<and> length (line_yield (board (initial_state PT_HUMAN PT_COMP (\<lambda>n. 0))) (CHR ''X'') 2 4 (1, 0)) \<le> 6
   \<and> fst (snd (projr (compute_effect 2 4 X_DATA (initial_state PT_HUMAN PT_COMP (\<lambda>n. 0))))) = [(3, 4)]
   \<and> cell (board (initial_state PT_HUMAN PT_COMP (\<lambda>n. 0))) 3 4 = CHR ''O''
   \<and> cell (board (snd (snd (projr (compute_effect 2 4 X_DATA
               (initial_state PT_HUMAN PT_COMP (\<lambda>n. 0))))))) 3 4 = CHR ''X''
   \<and> cell (board (snd (snd (projr (compute_effect 2 4 X_DATA
               (initial_state PT_HUMAN PT_COMP (\<lambda>n. 0))))))) 2 4 = CHR ''X''
   \<and> cell (board (snd (snd (projr (compute_effect 2 4 X_DATA
               (initial_state PT_HUMAN PT_COMP (\<lambda>n. 0))))))) 4 3 = CHR ''O''"
proof -
  let ?s = "initial_state PT_HUMAN PT_COMP (\<lambda>n. 0)"
  have m: "marker (players ?s X_DATA) = CHR ''X''"
    "marker (players ?s (opponent (players ?s X_DATA))) = CHR ''O''"
    by (simp_all add: initial_state_def)
  have v: "valid_board (board ?s) (CHR ''X'') (CHR ''O'')"
    by (simp add: initial_state_def valid_board_def wf_board_def)
  have vm: "valid_markers (CHR ''X'') (CHR ''O'')" by (simp add: valid_markers_def)
  have on: "on_board 2 4" "on_board 3 4" "on_board 4 3"
    by (simp_all add: on_board_def BOARD_SIZE_def)
  have d: "(1, 0) \<in> set vector" by (simp add: vector_def)
  have fl: "line_flips (board ?s) (CHR ''X'') (CHR ''O'') 2 4 (1, 0) = [(3, 4)]" by code_simp
  have ys: "map (line_yield (board ?s) (CHR ''X'') 2 4) vector = [[], [], [], [], [], [], [(3, 4)], []]"
    by code_simp
  have c0: "cell (board ?s) 3 4 = CHR ''O''" "cell (board ?s) 4 3 = CHR ''O''" by code_simp+
  have u: "uint (2 :: uint) = 2" "uint (4 :: uint) = 4" by simp_all
  from v m have v': "valid_board (board ?s) (marker (players ?s X_DATA))
      (marker (players ?s (opponent (players ?s X_DATA))))" by (simp only:)
  from vm m have vm': "valid_markers (marker (players ?s X_DATA))
      (marker (players ?s (opponent (players ?s X_DATA))))" by (simp only:)
  note T = flips_per_direction [OF v' vm' on(1), unfolded m]
  note t = T [THEN conjunct2, THEN conjunct2, THEN conjunct1, THEN bspec, OF d, unfolded u fl]
  note p = T [THEN conjunct2, THEN conjunct2, THEN conjunct2]
  from p obtain heur s' where
    ce: "compute_effect 2 4 X_DATA ?s
           = Inr (heur, concat (map (line_yield (board ?s) (CHR ''X'') 2 4) vector), s')"
    and post: "\<forall>r c. on_board r c \<longrightarrow>
                 cell (board s') r c
                   = (if (\<exists>d \<in> set vector. (r, c) \<in> set (line_yield (board ?s) (CHR ''X'') 2 4 d))
                      then CHR ''X''
                      else if (r, c) = (2, 4)
                              \<and> (\<exists>d \<in> set vector. line_yield (board ?s) (CHR ''X'') 2 4 d \<noteq> [])
                      then CHR ''X''
                      else cell (board ?s) r c)"
    by blast
  have ex: "\<And>P. (\<exists>d \<in> set vector. P (line_yield (board ?s) (CHR ''X'') 2 4 d))
              \<longleftrightarrow> list_ex P (map (line_yield (board ?s) (CHR ''X'') 2 4) vector)"
    by (simp add: list_ex_iff)
  from ce have s': "snd (snd (projr (compute_effect 2 4 X_DATA ?s))) = s'"
    and ch: "fst (snd (projr (compute_effect 2 4 X_DATA ?s))) = [(3, 4)]"
    by (simp_all add: ys)
  from post [rule_format, OF on(2)] have c1: "cell (board s') 3 4 = CHR ''X''"
    unfolding ex [of "\<lambda>l. (3, 4) \<in> set l"] ex [of "\<lambda>l. l \<noteq> []"] ys by simp
  from post [rule_format, OF on(1)] have c2: "cell (board s') 2 4 = CHR ''X''"
    unfolding ex [of "\<lambda>l. (2, 4) \<in> set l"] ex [of "\<lambda>l. l \<noteq> []"] ys by simp
  from post [rule_format, OF on(3)] have c3: "cell (board s') 4 3 = CHR ''O''"
    unfolding ex [of "\<lambda>l. (4, 3) \<in> set l"] ex [of "\<lambda>l. l \<noteq> []"] ys c0 by simp
  from t v vm on d fl ch c0 c1 c2 c3 show ?thesis unfolding s' by (simp add: cell_ptr_def)
qed

section \<open>Moves that flip nothing\<close>

text \<open>
  C6.  When no direction yields a flip from the empty cell (row, col),
  \<^verbatim>\<open>compute_effect\<close> returns normally (no assertion fails), with score 0, no flips,
  and the state untouched: board and counts are what they were.
\<close>

theorem zero_yield_no_effect:
  assumes "on_board row col" and "cell (board s) row col = CHR '' ''"
    and "\<forall>d \<in> set vector. line_yield (board s) (marker (players s player)) row col d = []"
  shows "compute_effect row col player s = Inr (0, [], s)"
  using assms(1,3) by (rule compute_effect_zero_yield)

theorem zero_yield_no_effect_witness:
  "on_board 2 3 \<and> cell (board (initial_state PT_HUMAN PT_COMP (\<lambda>n. 0))) 2 3 = CHR '' ''
   \<and> list_all (\<lambda>d. line_yield (board (initial_state PT_HUMAN PT_COMP (\<lambda>n. 0)))
          (marker (players (initial_state PT_HUMAN PT_COMP (\<lambda>n. 0)) X_DATA)) 2 3 d = []) vector
   \<and> compute_effect 2 3 X_DATA (initial_state PT_HUMAN PT_COMP (\<lambda>n. 0))
       = Inr (0, [], initial_state PT_HUMAN PT_COMP (\<lambda>n. 0))"
proof -
  let ?s = "initial_state PT_HUMAN PT_COMP (\<lambda>n. 0)"
  have on: "on_board 2 3" by (simp add: on_board_def BOARD_SIZE_def)
  have e: "cell (board ?s) 2 3 = CHR '' ''" by (simp add: initial_state_def cell_def)
  have y: "list_all (\<lambda>d. line_yield (board ?s) (marker (players ?s X_DATA)) 2 3 d = []) vector"
    by code_simp
  then have "\<forall>d \<in> set vector. line_yield (board ?s) (marker (players ?s X_DATA)) 2 3 d = []"
    by (simp add: list_all_iff)
  from zero_yield_no_effect [OF on e this] on e y show ?thesis by simp
qed

text \<open>
  C10.  \<^verbatim>\<open>compute_effect\<close> returns 0 exactly when it flips no cell, and a move
  that flips at least one cell scores at least 2, also when the result is read as an
  \<^verbatim>\<open>int\<close> as \<^verbatim>\<open>main\<close> and \<^verbatim>\<open>best_move\<close> do.
\<close>

theorem effect_positive_iff_flips:
  assumes "wf_board (board s)" and "on_board row col"
  shows "\<exists>heur changes s'. compute_effect row col player s = Inr (heur, changes, s')
           \<and> (heur = 0 \<longleftrightarrow> changes = []) \<and> (sint heur = 0 \<longleftrightarrow> changes = [])
           \<and> (changes \<noteq> [] \<longrightarrow> 2 \<le> sint heur)"
proof -
  from compute_effect_total [OF assms(2)] obtain heur changes s' where
    ce: "compute_effect row col player s = Inr (heur, changes, s')" by blast
  note r = compute_effect_result [OF ce assms(1)]
  show ?thesis
  proof (cases "changes = []")
    case True
    with r ce show ?thesis by auto
  next
    case False
    with r have len: "length changes \<le> MAX_CHANGES"
      and h: "heur = word_of_int (h_func row col + weight_sum changes)" by simp_all
    from False have "1 \<le> length changes" by (cases changes) simp_all
    with sint_heur [OF len, of row col] h have "2 \<le> sint heur" by simp
    moreover from this have "heur \<noteq> 0" by auto
    ultimately show ?thesis using ce False by auto
  qed
qed

theorem effect_positive_iff_flips_witness:
  "wf_board (board (initial_state PT_HUMAN PT_COMP (\<lambda>n. 0))) \<and> on_board 2 4
   \<and> fst (snd (projr (compute_effect 2 4 X_DATA (initial_state PT_HUMAN PT_COMP (\<lambda>n. 0))))) \<noteq> []
   \<and> 2 \<le> sint (fst (projr (compute_effect 2 4 X_DATA (initial_state PT_HUMAN PT_COMP (\<lambda>n. 0)))))"
proof -
  let ?s = "initial_state PT_HUMAN PT_COMP (\<lambda>n. 0)"
  have wf: "wf_board (board ?s)" by (simp add: initial_state_def wf_board_def)
  have on: "on_board 2 4" by (simp add: on_board_def BOARD_SIZE_def)
  have ch: "fst (snd (projr (compute_effect 2 4 X_DATA ?s))) \<noteq> []" by code_simp
  from effect_positive_iff_flips [OF wf on, of X_DATA] ch
  have "2 \<le> sint (fst (projr (compute_effect 2 4 X_DATA ?s)))" by auto
  with wf on ch show ?thesis by simp
qed

section \<open>Counts and score of a move\<close>

text \<open>
  C5, as amended.  When \<^verbatim>\<open>compute_effect\<close> flips \<open>n \<ge> 1\<close> cells (pairwise
  distinct cells that were not the mover's), every flipped cell and the placed cell end
  with the mover's marker, the mover's count grows by \<open>n + 1\<close>, the opponent's count
  shrinks by \<open>n\<close>, so that the sum of the two counts grows by exactly 1, and the score
  is the weight of the placed cell plus the weights of the flipped cells.
\<close>

theorem apply_counts_and_score:
  assumes "wf_board (board s)" and "on_board row col"
    and "opponent (players s player) \<noteq> player"
    and "compute_effect row col player s = Inr (heur, changes, s')" and "changes \<noteq> []"
  shows "(\<forall>p \<in> set changes. flippable (board s) (marker (players s player)) p
            \<and> cell (board s') (fst p) (snd p) = marker (players s' player))
       \<and> distinct changes
       \<and> cell (board s') row col = marker (players s' player)
       \<and> count (players s' player) = count (players s player) + of_nat (length changes) + 1
       \<and> count (players s' (opponent (players s player)))
            = count (players s (opponent (players s player))) - of_nat (length changes)
       \<and> count (players s' player) + count (players s' (opponent (players s player)))
            = count (players s player) + count (players s (opponent (players s player))) + 1
       \<and> sint heur = h_func row col + weight_sum changes"
proof -
  let ?m = "marker (players s player)"
  note r = compute_effect_result [OF assms(4,1)]
  from r assms(5) have len: "length changes \<le> MAX_CHANGES"
    and h: "heur = word_of_int (h_func row col + weight_sum changes)"
    and s': "s' = placed row col player changes s" by simp_all
  from r have fl: "\<forall>p \<in> set changes. flippable (board s) ?m p" by simp
  then have onch: "\<forall>p \<in> set changes. on_board (fst p) (snd p)" by (simp add: flippable_def)
  have b': "board s' = set_cell (set_cells changes ?m (board s)) row col ?m"
    and m': "marker (players s' player) = ?m"
    by (simp_all add: s' placed_def)
  note wf1 = wf_board_set_cells [OF assms(1), of changes ?m]
  have c1: "cell (board s') r c = ?m" if "(r, c) \<in> set changes" for r c
  proof -
    from that onch have on: "on_board r c" by auto
    show ?thesis
      using that by (simp add: b' cell_set_cell [OF wf1 assms(2) on] cell_set_cells [OF assms(1) onch on])
  qed
  have c2: "cell (board s') row col = ?m"
    by (simp add: b' cell_set_cell [OF wf1 assms(2) assms(2)])
  have cnt: "count (players s' player) = count (players s player) + of_nat (length changes) + 1"
    "count (players s' (opponent (players s player)))
       = count (players s (opponent (players s player))) - of_nat (length changes)"
    using assms(3) by (simp_all add: s' placed_def)
  from fl c1 have "\<forall>p \<in> set changes. flippable (board s) ?m p
            \<and> cell (board s') (fst p) (snd p) = marker (players s' player)"
    by (auto simp: m')
  moreover note compute_effect_distinct [OF assms(4,1,2)]
  moreover from c2 have "cell (board s') row col = marker (players s' player)" by (simp add: m')
  moreover from sint_heur(1) [OF len, of row col] h
  have "sint heur = h_func row col + weight_sum changes" by simp
  ultimately show ?thesis using cnt by simp
qed

theorem apply_counts_and_score_witness:
  "wf_board (board (initial_state PT_HUMAN PT_COMP (\<lambda>n. 0))) \<and> on_board 2 4
   \<and> opponent (players (initial_state PT_HUMAN PT_COMP (\<lambda>n. 0)) X_DATA) \<noteq> X_DATA
   \<and> \<not> isl (compute_effect 2 4 X_DATA (initial_state PT_HUMAN PT_COMP (\<lambda>n. 0)))
   \<and> fst (snd (projr (compute_effect 2 4 X_DATA (initial_state PT_HUMAN PT_COMP (\<lambda>n. 0))))) \<noteq> []
   \<and> count (players (snd (snd (projr (compute_effect 2 4 X_DATA
               (initial_state PT_HUMAN PT_COMP (\<lambda>n. 0)))))) X_DATA)
       + count (players (snd (snd (projr (compute_effect 2 4 X_DATA
               (initial_state PT_HUMAN PT_COMP (\<lambda>n. 0)))))) O_DATA)
       = 2 + 2 + 1
   \<and> sint (fst (projr (compute_effect 2 4 X_DATA (initial_state PT_HUMAN PT_COMP (\<lambda>n. 0)))))
       = h_func 2 4 + weight_sum (fst (snd (projr (compute_effect 2 4 X_DATA
               (initial_state PT_HUMAN PT_COMP (\<lambda>n. 0))))))"
proof -
  let ?s = "initial_state PT_HUMAN PT_COMP (\<lambda>n. 0)"
  let ?r = "compute_effect 2 4 X_DATA ?s"
  have wf: "wf_board (board ?s)" by (simp add: initial_state_def wf_board_def)
  have on: "on_board 2 4" by (simp add: on_board_def BOARD_SIZE_def)
  have op: "opponent (players ?s X_DATA) \<noteq> X_DATA" by (simp add: initial_state_def)
  have cs: "count (players ?s X_DATA) = 2" "count (players ?s (opponent (players ?s X_DATA))) = 2"
    "opponent (players ?s X_DATA) = O_DATA"
    by (simp_all add: initial_state_def)
  have nl: "\<not> isl ?r" by code_simp
  then have r: "?r = Inr (fst (projr ?r), fst (snd (projr ?r)), snd (snd (projr ?r)))"
    by (cases ?r) simp_all
  have ne: "fst (snd (projr ?r)) \<noteq> []" by code_simp
  from apply_counts_and_score [OF wf on op r ne] wf on op nl ne cs show ?thesis by simp
qed

text \<open>
  C5 as the specification states it has the sum of the two counts grow by \<open>n + 1\<close>.
  The opening move of X at (2, 4) flips one cell; the counts go from 2 and 2 to 4 and 1.
\<close>

theorem combined_count_counterexample:
  "\<not> isl (compute_effect 2 4 X_DATA (initial_state PT_HUMAN PT_COMP (\<lambda>n. 0)))
   \<and> length (fst (snd (projr (compute_effect 2 4 X_DATA (initial_state PT_HUMAN PT_COMP (\<lambda>n. 0)))))) = 1
   \<and> count (players (initial_state PT_HUMAN PT_COMP (\<lambda>n. 0)) X_DATA) = 2
   \<and> count (players (initial_state PT_HUMAN PT_COMP (\<lambda>n. 0)) O_DATA) = 2
   \<and> count (players (snd (snd (projr (compute_effect 2 4 X_DATA
               (initial_state PT_HUMAN PT_COMP (\<lambda>n. 0)))))) X_DATA) = 4
   \<and> count (players (snd (snd (projr (compute_effect 2 4 X_DATA
               (initial_state PT_HUMAN PT_COMP (\<lambda>n. 0)))))) O_DATA) = 1
   \<and> (4 :: uint) + 1 \<noteq> 2 + 2 + (1 + 1)"
  by code_simp

section \<open>The frame of best_move\<close>

text \<open>
  C9.  A call of \<^verbatim>\<open>best_move\<close> that returns, at any ply and whatever it prunes or
  selects, leaves the board and the two player records (so both counts) as they were at
  entry; and the undo of lines 296 to 304 that follows each trial of a move gives back the
  board and the player records of before the trial, so that the next cell is tried on the
  position of entry.  A call that does not return has failed an assertion, which aborts
  the program.
\<close>

theorem best_move_restores_state:
  assumes "valid_state s"
  shows "(best_move rtn player ply max_ply prev_move_val best_sibling s = Inr (v, chain, s') \<longrightarrow>
            board s' = board s \<and> players s' = players s
            \<and> count (players s' X_DATA) = count (players s X_DATA)
            \<and> count (players s' O_DATA) = count (players s O_DATA))
       \<and> (on_board i j \<and> cell (board s) i j = CHR '' ''
            \<and> trial_move i j player ply max_ply lv s = Inr (Some (effect, chain', changes), s2) \<longrightarrow>
            board (undo_move i j player changes s2) = board s
            \<and> players (undo_move i j player changes s2) = players s)"
proof (intro conjI impI)
  assume bm: "best_move rtn player ply max_ply prev_move_val best_sibling s = Inr (v, chain, s')"
  with frame_induct(1) [of s rtn player ply max_ply prev_move_val best_sibling] assms
  have sg: "same_game s s'" by blast
  then show "board s' = board s" and "players s' = players s" by (simp_all add: same_game_def)
  then show "count (players s' X_DATA) = count (players s X_DATA)"
    and "count (players s' O_DATA) = count (players s O_DATA)" by simp_all
next
  assume t: "on_board i j \<and> cell (board s) i j = CHR '' ''
      \<and> trial_move i j player ply max_ply lv s = Inr (Some (effect, chain', changes), s2)"
  with frame_induct(3) [of s i j player ply max_ply lv] assms
  have "undo_move i j player changes s2 = s\<lparr>rand_stream := rand_stream s2\<rparr>" by fastforce
  then show "board (undo_move i j player changes s2) = board s"
    and "players (undo_move i j player changes s2) = players s" by simp_all
qed

theorem best_move_restores_state_witness:
  "valid_state (initial_state PT_HUMAN PT_COMP (\<lambda>n. 0))
   \<and> \<not> isl (best_move True X_DATA 1 1 0 0 (initial_state PT_HUMAN PT_COMP (\<lambda>n. 0)))
   \<and> board (snd (snd (projr (best_move True X_DATA 1 1 0 0 (initial_state PT_HUMAN PT_COMP (\<lambda>n. 0))))))
       = board (initial_state PT_HUMAN PT_COMP (\<lambda>n. 0))
   \<and> players (snd (snd (projr (best_move True X_DATA 1 1 0 0 (initial_state PT_HUMAN PT_COMP (\<lambda>n. 0))))))
       = players (initial_state PT_HUMAN PT_COMP (\<lambda>n. 0))
   \<and> on_board 2 4 \<and> cell (board (initial_state PT_HUMAN PT_COMP (\<lambda>n. 0))) 2 4 = CHR '' ''
   \<and> fst (projr (trial_move 2 4 X_DATA 1 1 init_vars (initial_state PT_HUMAN PT_COMP (\<lambda>n. 0))))
       = Some (2, [], [(3, 4)])
   \<and> board (undo_move 2 4 X_DATA [(3, 4)]
        (snd (projr (trial_move 2 4 X_DATA 1 1 init_vars (initial_state PT_HUMAN PT_COMP (\<lambda>n. 0))))))
       = board (initial_state PT_HUMAN PT_COMP (\<lambda>n. 0))"
proof -
  let ?s = "initial_state PT_HUMAN PT_COMP (\<lambda>n. 0)"
  let ?t = "trial_move 2 4 X_DATA 1 1 init_vars ?s"
  have vs: "valid_state ?s"
    by (simp add: valid_state_def valid_board_def wf_board_def initial_state_def)
  have "\<not> (1 :: uint) < 1" by simp
  from best_move_leaf_total [OF this vs, of True X_DATA 0 0] obtain v c s' where
    bm: "best_move True X_DATA 1 1 0 0 ?s = Inr (v, c, s')" by blast
  have on: "on_board 2 4" by (simp add: on_board_def BOARD_SIZE_def)
  have e: "cell (board ?s) 2 4 = CHR '' ''" by (simp add: initial_state_def cell_def)
  have nl: "\<not> isl ?t" by code_simp
  have t: "fst (projr ?t) = Some (2, [], [(3, 4)])" by code_simp
  from nl t have tm: "?t = Inr (Some (2, [], [(3, 4)]), snd (projr ?t))"
    by (cases ?t) (auto simp: prod_eq_iff)
  note inst = best_move_restores_state [OF vs, of True X_DATA 1 1 0 0 v c s' 2 4 init_vars 2 "[]"
      "[(3, 4)]" "snd (projr ?t)"]
  from inst bm have a: "board s' = board ?s \<and> players s' = players ?s" by simp
  from inst on e tm have b: "board (undo_move 2 4 X_DATA [(3, 4)] (snd (projr ?t))) = board ?s"
    by simp
  from a b bm vs on e t show ?thesis by simp
qed

section \<open>A node without a legal move\<close>

text \<open>
  C7.  When no empty cell yields a flip for the player to move, \<^verbatim>\<open>best_move\<close>,
  called as every caller in the program calls it (with a place to store the chain),
  stores the \<^verbatim>\<open>NULL\<close> chain and returns 0, the score its parent subtracts; the state
  is untouched.  When there is a legal move, a call that returns stores a chain that
  starts with a move, so the \<^verbatim>\<open>NULL\<close> chain tells the two cases apart, also when the
  score of the move is 0.
\<close>

theorem no_move_sentinel:
  assumes "valid_state s"
  shows "(no_legal_move player s \<longrightarrow>
            best_move True player ply max_ply prev_move_val best_sibling s = Inr (0, Some [], s))
       \<and> (\<not> no_legal_move player s \<longrightarrow>
            (\<forall>v c s'. best_move True player ply max_ply prev_move_val best_sibling s = Inr (v, c, s')
               \<longrightarrow> (\<exists>m ms. c = Some (m # ms))))"
  using best_move_no_legal_move best_move_some_move [OF assms] by blast

theorem no_move_sentinel_witness:
  "valid_state endgame_state \<and> no_legal_move O_DATA endgame_state
   \<and> best_move True O_DATA 2 3 5 1 endgame_state = Inr (0, Some [], endgame_state)
   \<and> \<not> no_legal_move X_DATA endgame_state
   \<and> \<not> isl (best_move True X_DATA 1 1 0 0 endgame_state)
   \<and> (\<exists>m ms. fst (snd (projr (best_move True X_DATA 1 1 0 0 endgame_state))) = Some (m # ms))"
proof -
  have vs: "valid_state endgame_state"
    by (simp add: valid_state_def valid_board_def wf_board_def endgame_state_def)
  have no: "no_legal_move O_DATA endgame_state" by code_simp
  have some: "\<not> no_legal_move X_DATA endgame_state" by code_simp
  have "\<not> (1 :: uint) < 1" by simp
  from best_move_leaf_total [OF this vs, of True X_DATA 0 0] obtain v c s' where
    bm: "best_move True X_DATA 1 1 0 0 endgame_state = Inr (v, c, s')" by blast
  from no_move_sentinel [OF vs, of O_DATA 2 3 5 1] no
  have a: "best_move True O_DATA 2 3 5 1 endgame_state = Inr (0, Some [], endgame_state)" by simp
  from no_move_sentinel [OF vs, of X_DATA 1 1 0 0] some bm
  have b: "\<exists>m ms. c = Some (m # ms)" by blast
  from vs no some a b bm show ?thesis by simp
qed

section \<open>Alpha-beta pruning\<close>

text \<open>
  C2.  From the root (ply 1, as \<^verbatim>\<open>main\<close> calls it), on any position with the two
  players linked as opponents, for any mover, any depth and any values of \<^verbatim>\<open>rand()\<close>,
  the score that \<^verbatim>\<open>best_move\<close> returns is the score of the full minimax without
  pruning to the same depth.  (A call that does not return has failed the assertion of
  line 260, which aborts the program.)
\<close>

theorem alpha_beta_equals_minimax:
  assumes "valid_state s"
    and "best_move True player 1 max_ply prev_move_val best_sibling s = Inr (v, chain, s')"
  shows "v = minimax player 1 max_ply s"
  using refine_induct(1) [of True s player 1 max_ply prev_move_val best_sibling] assms by simp

theorem alpha_beta_equals_minimax_witness:
  "valid_state pruning_state
   \<and> \<not> isl (best_move True X_DATA 1 2 0 0 pruning_state)
   \<and> fst (projr (best_move True X_DATA 1 2 0 0 pruning_state)) = 72
   \<and> minimax X_DATA 1 2 pruning_state = 72
   \<and> (\<exists>s'. trial_move 7 7 X_DATA 1 2
              \<lparr>done_flag = False, max_effect = 72, best_moves = [[(0, 0)]], chain_ptr = []\<rparr>
              pruning_state
            = Inr (Some (0, [(0, 0)], [(7, 6)]), s'))
   \<and> fst (projr (cell_loop all_cells O_DATA 2 2 72 72 init_vars
                   (placed 7 7 X_DATA [(7, 6)] pruning_state)))
       = \<lparr>done_flag = True, max_effect = 72, best_moves = [[(0, 0)]], chain_ptr = []\<rparr>
   \<and> minimax O_DATA 2 2 (placed 7 7 X_DATA [(7, 6)] pruning_state) = 104"
proof -
  from pruning_state_search obtain s' where
    bm: "best_move True X_DATA 1 2 0 0 pruning_state = Inr (72, Some [(0, 0)], s')" by blast
  from alpha_beta_equals_minimax [OF pruning_state_valid bm]
  have "minimax X_DATA 1 2 pruning_state = 72" by simp
  with bm pruning_state_valid pruning_state_third pruning_state_child pruning_state_child_minimax
  show ?thesis by simp
qed

text \<open>
  C3.  At a node below the root (ply greater than 1), when the loop reaches the empty cell
  (i, j) and its trial has net score \<open>e\<close> with
  \<^verbatim>\<open>prev_move_val - e < best_sibling\<close>, then \<open>e\<close> is above the best score found
  before, the loop visits none of the cells after (i, j), and the node's result is the
  best-score candidate found: score \<open>e\<close>, and the chain that starts with the move
  (i, j).
\<close>

theorem cutoff_skips_remaining_cells:
  assumes vs: "valid_state s" and ply: "1 < ply"
    and cells: "all_cells = pre @ (i, j) # post"
    and pre: "cell_loop pre player ply max_ply prev_move_val best_sibling init_vars s = Inr (lv, s1)"
    and nd: "\<not> done_flag lv" and emp: "cell (board s1) i j = CHR '' ''"
    and tm: "trial_move i j player ply max_ply lv s1 = Inr (Some (e, chain, changes), s2)"
    and cut: "prev_move_val - e < best_sibling"
  shows "max_effect lv < e
       \<and> cell_loop all_cells player ply max_ply prev_move_val best_sibling init_vars s
           = Inr (\<lparr>done_flag = True, max_effect = e, best_moves = [(i, j) # chain], chain_ptr = chain\<rparr>,
                  undo_move i j player changes s2)
       \<and> best_move True player ply max_ply prev_move_val best_sibling s
           = Inr (e, Some ((i, j) # chain), snd (rand (undo_move i j player changes s2)))"
proof -
  have onpre: "\<forall>p \<in> set pre. on_board (fst p) (snd p)"
  proof
    fix p assume "p \<in> set pre"
    then have "p \<in> set all_cells" by (simp add: cells)
    then show "on_board (fst p) (snd p)" by (rule all_cells_on_board)
  qed
  have "(i, j) \<in> set all_cells" by (simp add: cells)
  from all_cells_on_board [OF this] have on: "on_board i j" by simp
  have "cut_inv prev_move_val best_sibling init_vars"
    by (simp add: cut_inv_def lv_ok_def init_vars_def)
  from cell_loop_cut_inv [OF ply vs onpre this pre]
  have inv: "cut_inv prev_move_val best_sibling lv" and sg: "same_game s s1" by simp_all
  note vs1 = valid_state_same_game [OF vs sg]
  from trial_move_effect [OF vs1 on tm] have e: "e > INIT_MAX_EFFECT" .
  from inv nd cut e have gt: "max_effect (lv\<lparr>chain_ptr := chain\<rparr>) < e"
    by (auto simp: cut_inv_def lv_ok_def)
  let ?lv1 = "record_move ply prev_move_val best_sibling i j e (lv\<lparr>chain_ptr := chain\<rparr>)"
  from record_move_gt [OF gt, of ply prev_move_val best_sibling i j] ply cut
  have lv1: "?lv1 = \<lparr>done_flag = True, max_effect = e, best_moves = [(i, j) # chain], chain_ptr = chain\<rparr>"
    by (intro loop_vars.equality) (simp_all add: record_move_def Let_def)
  have "cell_loop ((i, j) # post) player ply max_ply prev_move_val best_sibling lv s1
          = cell_loop post player ply max_ply prev_move_val best_sibling ?lv1 (undo_move i j player changes s2)"
    using nd emp tm by simp
  also have "\<dots> = Inr (?lv1, undo_move i j player changes s2)"
    by (rule cell_loop_done) (simp add: lv1)
  finally have "cell_loop all_cells player ply max_ply prev_move_val best_sibling init_vars s
          = Inr (?lv1, undo_move i j player changes s2)"
    by (simp add: cells cell_loop_append pre)
  then have cl: "cell_loop all_cells player ply max_ply prev_move_val best_sibling init_vars s
           = Inr (\<lparr>done_flag = True, max_effect = e, best_moves = [(i, j) # chain], chain_ptr = chain\<rparr>,
                  undo_move i j player changes s2)"
    by (simp only: lv1)
  have "best_move True player ply max_ply prev_move_val best_sibling s
           = Inr (e, Some ((i, j) # chain), snd (rand (undo_move i j player changes s2)))"
    by (subst best_move.simps) (simp add: cl choose_result_def Let_def split: prod.splits)
  with gt cl show ?thesis by simp
qed

theorem cutoff_skips_remaining_cells_witness:
  "valid_state endgame_state \<and> (1 :: uint) < 2
   \<and> all_cells = [] @ (0, 0) # tl all_cells
   \<and> cell_loop [] X_DATA 2 2 0 0 init_vars endgame_state = Inr (init_vars, endgame_state)
   \<and> \<not> done_flag init_vars \<and> cell (board endgame_state) 0 0 = CHR '' ''
   \<and> \<not> isl (trial_move 0 0 X_DATA 2 2 init_vars endgame_state)
   \<and> fst (projr (trial_move 0 0 X_DATA 2 2 init_vars endgame_state)) = Some (72, [], [(0, 1)])
   \<and> (0 :: int) - 72 < 0
   \<and> best_move True X_DATA 2 2 0 0 endgame_state
       = Inr (72, Some [(0, 0)],
              snd (rand (undo_move 0 0 X_DATA [(0, 1)]
                     (snd (projr (trial_move 0 0 X_DATA 2 2 init_vars endgame_state))))))"
proof -
  let ?t = "trial_move 0 0 X_DATA 2 2 init_vars endgame_state"
  have vs: "valid_state endgame_state"
    by (simp add: valid_state_def valid_board_def wf_board_def endgame_state_def)
  have ply: "(1 :: uint) < 2" by simp
  have cells: "all_cells = [] @ (0, 0) # tl all_cells" by (simp add: all_cells_def)
  have pre: "cell_loop [] X_DATA 2 2 0 0 init_vars endgame_state = Inr (init_vars, endgame_state)"
    by simp
  have nd: "\<not> done_flag init_vars" by (simp add: init_vars_def)
  have emp: "cell (board endgame_state) 0 0 = CHR '' ''" by (simp add: endgame_state_def cell_def)
  have nl: "\<not> isl ?t" by code_simp
  have t: "fst (projr ?t) = Some (72, [], [(0, 1)])" by code_simp
  from nl t have tm: "?t = Inr (Some (72, [], [(0, 1)]), snd (projr ?t))"
    by (cases ?t) (auto simp: prod_eq_iff)
  have cut: "(0 :: int) - 72 < 0" by simp
  from cutoff_skips_remaining_cells [OF vs ply cells pre nd emp tm cut] vs ply cells pre nd emp nl t
  show ?thesis by simp
qed

end
